theory Spec2Isabelle
  imports Complex_Main "HOL-Library.Sublist"
begin

section \<open>Python values, exceptions and checked list access\<close>

text \<open>
  Exceptions of the Python program are values: a computation that may raise returns
  \<open>error + 'a\<close>, with \<open>Inl\<close> for the exception raised.
\<close>

datatype error =
  IndexError | ZeroDivisionError | OverflowError | TypeError | AttributeError | ValueError
  | RuntimeError

definition bindE :: "error + 'a \<Rightarrow> ('a \<Rightarrow> error + 'b) \<Rightarrow> error + 'b" where
  "bindE m f = (case m of Inl e \<Rightarrow> Inl e | Inr v \<Rightarrow> f v)"

text \<open>
  \<open>xs[i]\<close> and \<open>xs[i] = v\<close> on a Python list, for an index that is not negative (every
  index of the program is \<open>idx - 1\<close> or \<open>idx\<close> with \<open>idx\<close> drawn from \<open>range(1, k + 1)\<close>,
  or a remainder modulo 2): out of range they raise \<open>IndexError\<close>.
\<close>

definition getitem :: "'a list \<Rightarrow> nat \<Rightarrow> error + 'a" where
  "getitem xs i = (if i < length xs then Inr (xs ! i) else Inl IndexError)"

definition setitem :: "'a list \<Rightarrow> nat \<Rightarrow> 'a \<Rightarrow> error + 'a list" where
  "setitem xs i v = (if i < length xs then Inr (xs[i := v]) else Inl IndexError)"

text \<open>\<open>for i in range(...): body\<close> over a state, stopping at the first exception.\<close>

fun for_loop :: "nat list \<Rightarrow> 's \<Rightarrow> (nat \<Rightarrow> 's \<Rightarrow> error + 's) \<Rightarrow> error + 's" where
  "for_loop [] s body = Inr s"
| "for_loop (i # rest) s body = bindE (body i s) (\<lambda>s'. for_loop rest s' body)"

text \<open>\<open>range(lo, hi)\<close> for natural bounds.\<close>

definition range_py :: "nat \<Rightarrow> nat \<Rightarrow> nat list" where
  "range_py lo hi = [lo..<hi]"

section \<open>LCSEngine.calculate_lcs_length\<close>

text \<open>
  The body of the inner loop of \<open>calculate_lcs_length\<close>: one cell of the rolling table.
  \<open>dp_table\<close> is the list of the two row buffers; the assignment
  \<open>dp_table[current_row][idx_b] = v\<close> mutates the row object in place, which the model
  writes back into the table (the two rows are distinct objects, built by a list
  comprehension).
\<close>

definition lcs_cell :: "'a list \<Rightarrow> 'a list \<Rightarrow> nat \<Rightarrow> nat \<Rightarrow> int list list \<Rightarrow> error + int list list" where
  "lcs_cell seq_a seq_b idx_a idx_b dp_table =
     (let current_row = idx_a mod 2;
          prev_row = (idx_a - 1) mod 2
      in bindE (getitem seq_a (idx_a - 1)) (\<lambda>x.
         bindE (getitem seq_b (idx_b - 1)) (\<lambda>y.
         if x = y then
           bindE (getitem dp_table prev_row) (\<lambda>p.
           bindE (getitem p (idx_b - 1)) (\<lambda>v.
           bindE (getitem dp_table current_row) (\<lambda>c.
           bindE (setitem c idx_b (v + 1)) (\<lambda>c'.
           setitem dp_table current_row c'))))
         else
           bindE (getitem dp_table prev_row) (\<lambda>p.
           bindE (getitem p idx_b) (\<lambda>u.
           bindE (getitem dp_table current_row) (\<lambda>c.
           bindE (getitem c (idx_b - 1)) (\<lambda>w.
           bindE (setitem c idx_b (max u w)) (\<lambda>c'.
           setitem dp_table current_row c'))))))))"

definition lcs_row :: "'a list \<Rightarrow> 'a list \<Rightarrow> nat \<Rightarrow> int list list \<Rightarrow> error + int list list" where
  "lcs_row seq_a seq_b idx_a dp_table =
     for_loop (range_py 1 (length seq_b + 1)) dp_table (lcs_cell seq_a seq_b idx_a)"

definition calculate_lcs_length :: "'a list \<Rightarrow> 'a list \<Rightarrow> error + int" where
  "calculate_lcs_length seq_a seq_b =
     (let n = length seq_a; m = length seq_b
      in if n = 0 \<or> m = 0 then Inr 0
         else
           bindE (for_loop (range_py 1 (n + 1))
                    [replicate (m + 1) 0, replicate (m + 1) 0]
                    (lcs_row seq_a seq_b)) (\<lambda>dp_table.
           bindE (getitem dp_table (n mod 2)) (\<lambda>r.
           getitem r m)))"

section \<open>Reference definitions for the LCS properties\<close>

text \<open>
  The entries of the full dynamic-programming table, by the standard recurrence: row 0
  and column 0 are zero.
\<close>

fun dp_ref :: "'a list \<Rightarrow> 'a list \<Rightarrow> nat \<Rightarrow> nat \<Rightarrow> int" where
  "dp_ref a b 0 j = 0"
| "dp_ref a b (Suc i) 0 = 0"
| "dp_ref a b (Suc i) (Suc j) =
     (if a ! i = b ! j then dp_ref a b i j + 1
      else max (dp_ref a b i (Suc j)) (dp_ref a b (Suc i) j))"

text \<open>
  The reference implementation of the specification: a full table of \<open>n + 1\<close> rows of
  \<open>m + 1\<close> cells, the base row all zeros, each further row filled from left to right from
  the row over it by the recurrence, and the answer read at \<open>dp[n][m]\<close>.
\<close>

definition full_row :: "'a \<Rightarrow> 'a list \<Rightarrow> int list \<Rightarrow> int list" where
  "full_row x b upper =
     fold (\<lambda>j row. row @ [if x = b ! (j - 1) then upper ! (j - 1) + 1
                           else max (upper ! j) (row ! (j - 1))])
       [1..<length b + 1] [0]"

definition full_table :: "'a list \<Rightarrow> 'a list \<Rightarrow> int list list" where
  "full_table a b =
     fold (\<lambda>i dp. dp @ [full_row (a ! (i - 1)) b (dp ! (i - 1))])
       [1..<length a + 1] [replicate (length b + 1) 0]"

definition lcs_full_table :: "'a list \<Rightarrow> 'a list \<Rightarrow> int" where
  "lcs_full_table a b = full_table a b ! length a ! length b"

text \<open>The lengths of the common subsequences of two sequences.\<close>

definition common_subseq_lengths :: "'a list \<Rightarrow> 'a list \<Rightarrow> nat set" where
  "common_subseq_lengths a b = {length s |s. subseq s a \<and> subseq s b}"

text \<open>The textbook recursion for the LCS length, from the front of both lists.\<close>

fun lcs_len :: "'a list \<Rightarrow> 'a list \<Rightarrow> nat" where
  "lcs_len [] ys = 0"
| "lcs_len (x # xs) [] = 0"
| "lcs_len (x # xs) (y # ys) =
     (if x = y then Suc (lcs_len xs ys)
      else max (lcs_len xs (y # ys)) (lcs_len (x # xs) ys))"

text \<open>Row \<open>i\<close> of the full table, and the rolling table holding a current and a previous row.\<close>

definition row_ref :: "'a list \<Rightarrow> 'a list \<Rightarrow> nat \<Rightarrow> int list" where
  "row_ref a b i = map (dp_ref a b i) [0..<Suc (length b)]"

definition rolling :: "nat \<Rightarrow> int list \<Rightarrow> int list \<Rightarrow> int list list" where
  "rolling i c p = (if i mod 2 = 0 then [c, p] else [p, c])"

section \<open>Python strings\<close>

text \<open>
  A Python \<open>str\<close> is a sequence of Unicode code points; the model keeps each code point
  as a natural number, so that \<open>length\<close> counts what \<open>len\<close> counts.
\<close>

type_synonym pystr = "nat list"

text \<open>An ASCII literal as a \<open>pystr\<close>.\<close>

abbreviation ascii :: "string \<Rightarrow> pystr" where
  "ascii s \<equiv> map of_char s"

text \<open>
  The white space of CPython (\<open>Py_UNICODE_ISSPACE\<close>): the code points for which
  \<open>str.isspace\<close> holds. The same test decides what \<open>\s\<close> matches in a \<open>str\<close> pattern of
  \<open>re\<close>, where \<open>str.split()\<close> cuts, and what \<open>str.strip()\<close> removes.
\<close>

definition is_space :: "nat \<Rightarrow> bool" where
  "is_space c \<longleftrightarrow>
     (0x09 \<le> c \<and> c \<le> 0x0D) \<or> (0x1C \<le> c \<and> c \<le> 0x20) \<or> c = 0x85 \<or> c = 0xA0
     \<or> c = 0x1680 \<or> (0x2000 \<le> c \<and> c \<le> 0x200A) \<or> c = 0x2028 \<or> c = 0x2029
     \<or> c = 0x202F \<or> c = 0x205F \<or> c = 0x3000"

text \<open>
  A character class of a regular expression, as \<open>re\<close> reads it: a list of ranges and
  of the category \<open>\s\<close>, possibly negated by a leading \<open>^\<close>.
\<close>

datatype class_item = Range nat nat | Space

fun item_matches :: "class_item \<Rightarrow> nat \<Rightarrow> bool" where
  "item_matches (Range lo hi) c = (lo \<le> c \<and> c \<le> hi)"
| "item_matches Space c = is_space c"

definition class_matches :: "bool \<Rightarrow> class_item list \<Rightarrow> nat \<Rightarrow> bool" where
  "class_matches negated items c = (list_ex (\<lambda>it. item_matches it c) items \<noteq> negated)"

text \<open>
  \<open>re.sub(cls, repl, s)\<close> for a pattern that is one character class: every match is
  one character, and each is replaced on its own.
\<close>

definition re_sub_class :: "bool \<Rightarrow> class_item list \<Rightarrow> pystr \<Rightarrow> pystr \<Rightarrow> pystr" where
  "re_sub_class negated items repl s =
     concat (map (\<lambda>c. if class_matches negated items c then repl else [c]) s)"

text \<open>
  \<open>re.sub(r'\s{2,}', repl, s)\<close>: the scan goes from left to right; where two white-space
  characters start at the position, the greedy quantifier takes the whole run of white
  space and the match is replaced; otherwise the character is copied and the scan moves
  one position on.
\<close>

function re_sub_space_runs :: "pystr \<Rightarrow> pystr \<Rightarrow> pystr" where
  "re_sub_space_runs repl [] = []"
| "re_sub_space_runs repl [c] = [c]"
| "re_sub_space_runs repl (c # d # cs) =
     (if is_space c \<and> is_space d then repl @ re_sub_space_runs repl (dropWhile is_space cs)
      else c # re_sub_space_runs repl (d # cs))"
  by pat_completeness auto
termination
  by (relation "measure (\<lambda>(repl, s). length s)")
     (auto simp: less_Suc_eq_le intro: le_trans [OF length_dropWhile_le])

text \<open>\<open>s.strip()\<close>: the white space at both ends is removed.\<close>

definition str_strip :: "pystr \<Rightarrow> pystr" where
  "str_strip s = rev (dropWhile is_space (rev (dropWhile is_space s)))"

text \<open>
  \<open>s.split()\<close> with no separator: the maximal runs of characters that are not white
  space, in order; no empty string is produced.
\<close>

function str_split :: "pystr \<Rightarrow> pystr list" where
  "str_split s =
     (case dropWhile is_space s of
        [] \<Rightarrow> []
      | c # cs \<Rightarrow> takeWhile (\<lambda>x. \<not> is_space x) (c # cs)
                 # str_split (dropWhile (\<lambda>x. \<not> is_space x) cs))"
  by pat_completeness auto
termination
proof (relation "measure length")
  show "wf (measure length)" by simp
next
  fix s :: pystr and c cs
  assume eq: "dropWhile is_space s = c # cs"
  have "length (dropWhile (\<lambda>x. \<not> is_space x) cs) \<le> length cs"
    by (rule length_dropWhile_le)
  moreover have "length (c # cs) \<le> length s"
    unfolding eq [symmetric] by (rule length_dropWhile_le)
  ultimately show "(dropWhile (\<lambda>x. \<not> is_space x) cs, s) \<in> measure length"
    by simp
qed

text \<open>\<open>sep.join(xs)\<close> for a list of strings.\<close>

fun str_join :: "pystr \<Rightarrow> pystr list \<Rightarrow> pystr" where
  "str_join sep [] = []"
| "str_join sep [x] = x"
| "str_join sep (x # y # ys) = x @ sep @ str_join sep (y # ys)"

text \<open>
  The values a caller can pass where the code expects a \<open>str\<close>, with Python's truth
  test and \<open>isinstance(v, str)\<close>. \<open>PStr s\<close> is an instance of \<open>str\<close> itself, with the
  methods of \<open>str\<close>. \<open>PObject r\<close> is an object of any other class that is not a string: its
  truth test (\<open>__bool__\<close>, or \<open>__len__\<close>) is code of that class, which returns a truth
  value or raises; \<open>r\<close> is what it does.
\<close>

datatype pyval =
  PNone | PBool bool | PInt int | PStr pystr | PList "pyval list" | PObject "error + bool"

fun truth_value :: "pyval \<Rightarrow> error + bool" where
  "truth_value PNone = Inr False"
| "truth_value (PBool b) = Inr b"
| "truth_value (PInt i) = Inr (i \<noteq> 0)"
| "truth_value (PStr s) = Inr (s \<noteq> [])"
| "truth_value (PList vs) = Inr (vs \<noteq> [])"
| "truth_value (PObject r) = r"

fun isinstance_str :: "pyval \<Rightarrow> bool" where
  "isinstance_str (PStr s) = True"
| "isinstance_str v = False"

text \<open>
  \<open>v.lower()\<close>: only a \<open>str\<close> has the method. The case mapping of Unicode is a table of
  the Python runtime, not of this program: it is the parameter \<open>lower\<close>, a function on
  whole strings (the mapping of a character may depend on its neighbours).
\<close>

definition call_lower :: "(pystr \<Rightarrow> pystr) \<Rightarrow> pyval \<Rightarrow> error + pystr" where
  "call_lower lower v = (case v of PStr s \<Rightarrow> Inr (lower s) | _ \<Rightarrow> Inl AttributeError)"

section \<open>TextProcessor\<close>

text \<open>
  The class of the first substitution of \<open>standardize_text\<close>: negated, with the
  ranges U+4E00 to U+9FFF, U+0030 to U+0039, U+0041 to U+005A, U+0061 to U+007A, and
  the category of white space.
\<close>

definition symbol_class :: "class_item list" where
  "symbol_class = [Range 0x4e00 0x9fff, Range 0x0030 0x0039, Range 0x0041 0x005a,
                   Range 0x0061 0x007a, Space]"

definition standardize_text :: "(pystr \<Rightarrow> pystr) \<Rightarrow> pyval \<Rightarrow> error + pystr" where
  "standardize_text lower raw_input =
     bindE (truth_value raw_input) (\<lambda>truth.
     if \<not> truth \<or> \<not> isinstance_str raw_input then Inr []
     else
       bindE (call_lower lower raw_input) (\<lambda>normalized_text.
       let normalized_text = re_sub_class True symbol_class (ascii '' '') normalized_text;
           normalized_text = re_sub_space_runs (ascii '' '') normalized_text
       in Inr (str_strip normalized_text)))"

definition tokenize_content :: "pystr \<Rightarrow> pystr list" where
  "tokenize_content processed_text =
     (if processed_text = [] then [] else str_split processed_text)"

section \<open>LCSEngine.compute_textual_similarity\<close>

text \<open>
  The score is a Python float, an IEEE 754 binary64 number; the model keeps the exact
  value of the float as a rational. \<open>round_half_even\<close> is the integer nearest to a
  rational, the even one of two equally near.
\<close>

definition round_half_even :: "rat \<Rightarrow> int" where
  "round_half_even x =
     (let f = \<lfloor>x\<rfloor>; d = x - of_int f
      in if d < 1 / 2 then f
         else if 1 / 2 < d then f + 1
         else if even f then f else f + 1)"

text \<open>
  The binade of a rational that is not negative: the exponent \<open>e\<close> with
  \<open>2 ^ e \<le> x < 2 ^ (e + 1)\<close>, found by halving or doubling, and kept between the least
  exponent of a normal binary64 number, -1022, and 1024, where the numbers end. The
  fuel of the two searches is this range.
\<close>

fun doublings :: "nat \<Rightarrow> rat \<Rightarrow> nat" where
  "doublings 0 x = 0"
| "doublings (Suc fuel) x = (if 1 \<le> x then 0 else Suc (doublings fuel (2 * x)))"

fun halvings :: "nat \<Rightarrow> rat \<Rightarrow> nat" where
  "halvings 0 x = 0"
| "halvings (Suc fuel) x = (if x < 2 then 0 else Suc (halvings fuel (x / 2)))"

definition binade :: "rat \<Rightarrow> int" where
  "binade x = (if 1 \<le> x then int (halvings 1024 x) else - int (doublings 1022 x))"

text \<open>
  \<open>to_double x\<close> is the binary64 number nearest to \<open>x\<close>, the one with the even
  significand of two equally near: a multiple of \<open>2 ^ (e - 52)\<close> for the binade \<open>e\<close> of
  \<open>x\<close> (53 bits of significand; below \<open>2 ^ -1022\<close> the spacing stays \<open>2 ^ -1074\<close>). A
  result of magnitude \<open>2 ^ 1024\<close> or more is beyond the largest float.
\<close>

definition to_double :: "rat \<Rightarrow> rat" where
  "to_double x =
     (let e = binade \<bar>x\<bar> - 52
      in if 0 \<le> e then of_int (round_half_even (x / 2 ^ nat e)) * 2 ^ nat e
         else of_int (round_half_even (x * 2 ^ nat (- e))) / 2 ^ nat (- e))"

definition double_overflow :: "rat \<Rightarrow> bool" where
  "double_overflow x \<longleftrightarrow> 2 ^ 1024 \<le> \<bar>x\<bar>"

text \<open>
  \<open>a / b\<close> on two integers: \<open>ZeroDivisionError\<close> when \<open>b\<close> is zero, else the float
  nearest to the quotient, \<open>OverflowError\<close> when that is too large for a float.
\<close>

definition true_div :: "int \<Rightarrow> int \<Rightarrow> error + rat" where
  "true_div a b =
     (if b = 0 then Inl ZeroDivisionError
      else let q = to_double (of_int a / of_int b)
           in if double_overflow q then Inl OverflowError else Inr q)"

text \<open>
  \<open>round(x, ndigits)\<close> on a float, for \<open>ndigits\<close> not negative: the exact value of \<open>x\<close>
  is rounded to the nearest multiple of \<open>10 ^ (- ndigits)\<close>, the even one of two equally
  near, and the float nearest to that decimal is the result; \<open>OverflowError\<close> when it is
  too large for a float.
\<close>

definition round_digits :: "rat \<Rightarrow> nat \<Rightarrow> rat" where
  "round_digits x ndigits =
     to_double (of_int (round_half_even (x * 10 ^ ndigits)) / 10 ^ ndigits)"

definition py_round :: "rat \<Rightarrow> nat \<Rightarrow> error + rat" where
  "py_round x ndigits =
     (let r = round_digits x ndigits
      in if double_overflow r then Inl OverflowError else Inr r)"

definition compute_textual_similarity :: "(pystr \<Rightarrow> pystr) \<Rightarrow> pyval \<Rightarrow> pyval \<Rightarrow> error + rat" where
  "compute_textual_similarity lower text_a text_b =
     bindE (standardize_text lower text_a) (\<lambda>clean_text_a.
     bindE (standardize_text lower text_b) (\<lambda>clean_text_b.
     let token_list_a = tokenize_content clean_text_a;
         token_list_b = tokenize_content clean_text_b
     in bindE (calculate_lcs_length token_list_a token_list_b) (\<lambda>lcs_value.
        let base_length = (if length token_list_a \<noteq> 0 then int (length token_list_a) else 1)
        in bindE (true_div lcs_value base_length) (\<lambda>similarity_ratio.
           py_round (max 0 (min 1 similarity_ratio)) 4))))"

text \<open>The token sequence of a text: normalization, then tokenization.\<close>

definition tokens_of :: "(pystr \<Rightarrow> pystr) \<Rightarrow> pyval \<Rightarrow> error + pystr list" where
  "tokens_of lower t = bindE (standardize_text lower t) (\<lambda>clean. Inr (tokenize_content clean))"

section \<open>PaperCheckSystem\<close>

record paper_check_system =
  original_content :: "pystr option"
  plagiarized_content :: "pystr option"
  tokenized_original :: "pystr list option"
  tokenized_plagiarized :: "pystr list option"

text \<open>
  The object after \<open>__init__\<close> and a \<open>load_files\<close> that read the two texts: the contents
  are set, the token lists are still \<open>None\<close>.
\<close>

definition loaded :: "pystr \<Rightarrow> pystr \<Rightarrow> paper_check_system" where
  "loaded orig plag =
     \<lparr>original_content = Some orig, plagiarized_content = Some plag,
      tokenized_original = None, tokenized_plagiarized = None\<rparr>"

text \<open>
  \<open>if self.original_content:\<close> on an \<open>Optional[str]\<close>: the attribute as a Python
  value; \<open>None\<close> and the empty string are false.
\<close>

definition content_value :: "pystr option \<Rightarrow> pyval" where
  "content_value c = (case c of None \<Rightarrow> PNone | Some s \<Rightarrow> PStr s)"

definition preprocess_side :: "(pystr \<Rightarrow> pystr) \<Rightarrow> pystr option \<Rightarrow> pystr list option \<Rightarrow> error + pystr list option" where
  "preprocess_side lower content tokenized =
     bindE (truth_value (content_value content)) (\<lambda>truth.
     if truth then
       bindE (standardize_text lower (content_value content)) (\<lambda>clean.
       Inr (Some (tokenize_content clean)))
     else Inr tokenized)"

definition preprocess_texts :: "(pystr \<Rightarrow> pystr) \<Rightarrow> paper_check_system \<Rightarrow> error + paper_check_system" where
  "preprocess_texts lower self =
     bindE (preprocess_side lower (original_content self) (tokenized_original self)) (\<lambda>t1.
     let self = self\<lparr>tokenized_original := t1\<rparr>
     in bindE (preprocess_side lower (plagiarized_content self) (tokenized_plagiarized self)) (\<lambda>t2.
        Inr (self\<lparr>tokenized_plagiarized := t2\<rparr>)))"

text \<open>\<open>" ".join(v)\<close> where \<open>v\<close> may be \<open>None\<close>, which is not iterable.\<close>

definition join_optional :: "pystr \<Rightarrow> pystr list option \<Rightarrow> error + pystr" where
  "join_optional sep v = (case v of None \<Rightarrow> Inl TypeError | Some xs \<Rightarrow> Inr (str_join sep xs))"

text \<open>
  \<open>calculate_similarity\<close>: the result is the score with the object as the call leaves
  it. Every exception raised inside the \<open>try\<close> block is re-raised as \<open>RuntimeError\<close>.
\<close>

definition calculate_similarity :: "(pystr \<Rightarrow> pystr) \<Rightarrow> paper_check_system \<Rightarrow> error + rat \<times> paper_check_system" where
  "calculate_similarity lower self =
     bindE (if tokenized_original self = None \<or> tokenized_plagiarized self = None
            then preprocess_texts lower self else Inr self) (\<lambda>self.
     case bindE (join_optional (ascii '' '') (tokenized_original self)) (\<lambda>joined_a.
          bindE (join_optional (ascii '' '') (tokenized_plagiarized self)) (\<lambda>joined_b.
          compute_textual_similarity lower (PStr joined_a) (PStr joined_b)))
     of Inl e \<Rightarrow> Inl RuntimeError
      | Inr similarity \<Rightarrow> Inr (similarity, self))"

section \<open>Assumptions on \<open>str.lower\<close>\<close>

text \<open>The lower-case mapping on ASCII: the letters A to Z move to a to z.\<close>

definition ascii_lower :: "nat \<Rightarrow> nat" where
  "ascii_lower c = (if 0x41 \<le> c \<and> c \<le> 0x5A then c + 32 else c)"

text \<open>
  Two facts of Python's \<open>str.lower\<close> that properties of texts rest on. The first: a
  string of ASCII characters and of characters of the block U+4E00 to U+9FFF (which
  have no case) is mapped character by character by the ASCII mapping. The second: no
  result holds one of the letters A to Z.
\<close>

definition plain_char :: "nat \<Rightarrow> bool" where
  "plain_char c \<longleftrightarrow> c < 128 \<or> (0x4E00 \<le> c \<and> c \<le> 0x9FFF)"

definition lower_conforms :: "(pystr \<Rightarrow> pystr) \<Rightarrow> bool" where
  "lower_conforms lower \<longleftrightarrow> (\<forall>s. list_all plain_char s \<longrightarrow> lower s = map ascii_lower s)"

definition capital :: "nat \<Rightarrow> bool" where
  "capital c \<longleftrightarrow> 0x41 \<le> c \<and> c \<le> 0x5A"

definition lower_leaves_no_capital :: "(pystr \<Rightarrow> pystr) \<Rightarrow> bool" where
  "lower_leaves_no_capital lower \<longleftrightarrow> (\<forall>s. list_all (\<lambda>c. \<not> capital c) (lower s))"

text \<open>
  The characters a token can hold: the block U+4E00 to U+9FFF, the digits and the small
  letters. A token is a string of them that is not empty.
\<close>

definition token_char :: "nat \<Rightarrow> bool" where
  "token_char c \<longleftrightarrow>
     (0x4E00 \<le> c \<and> c \<le> 0x9FFF) \<or> (0x30 \<le> c \<and> c \<le> 0x39) \<or> (0x61 \<le> c \<and> c \<le> 0x7A)"

definition good_token :: "pystr \<Rightarrow> bool" where
  "good_token t \<longleftrightarrow> t \<noteq> [] \<and> list_all token_char t"

section \<open>The normalization in the words of the specification\<close>

text \<open>
  The allowed domain: the range U+4E00 to U+9FFF, the ASCII digits, the ASCII letters,
  and white space.
\<close>

definition allowed_domain :: "nat \<Rightarrow> bool" where
  "allowed_domain c \<longleftrightarrow>
     (0x4E00 \<le> c \<and> c \<le> 0x9FFF) \<or> (of_char CHR ''0'' \<le> c \<and> c \<le> of_char CHR ''9'')
     \<or> (of_char CHR ''a'' \<le> c \<and> c \<le> of_char CHR ''z'')
     \<or> (of_char CHR ''A'' \<le> c \<and> c \<le> of_char CHR ''Z'') \<or> is_space c"

definition replace_disallowed :: "pystr \<Rightarrow> pystr" where
  "replace_disallowed s = map (\<lambda>c. if allowed_domain c then c else of_char CHR '' '') s"

text \<open>
  The maximal runs of a string: white space and other characters alternate. Every run
  of two or more white-space characters becomes one space.
\<close>

function runs :: "pystr \<Rightarrow> pystr list" where
  "runs [] = []"
| "runs (c # cs) =
     (c # takeWhile (\<lambda>x. is_space x = is_space c) cs)
     # runs (dropWhile (\<lambda>x. is_space x = is_space c) cs)"
  by pat_completeness auto
termination
  by (relation "measure length")
     (auto simp: less_Suc_eq_le intro: length_dropWhile_le)

definition collapse_runs :: "pystr \<Rightarrow> pystr" where
  "collapse_runs s =
     concat (map (\<lambda>r. if 2 \<le> length r \<and> list_all is_space r then [of_char CHR '' ''] else r)
               (runs s))"

text \<open>Trimming: the longest white-space prefix and the longest white-space suffix go.\<close>

definition trim :: "pystr \<Rightarrow> pystr" where
  "trim s =
     (let body = drop (length (takeWhile is_space s)) s
      in take (length body - length (takeWhile is_space (rev body))) body)"

definition normalize_spec :: "(pystr \<Rightarrow> pystr) \<Rightarrow> pystr \<Rightarrow> pystr" where
  "normalize_spec lower s = trim (collapse_runs (replace_disallowed (lower s)))"

section \<open>Correctness of the rolling table\<close>

lemma bindE_Inr [simp]: "bindE (Inr v) f = f v"
  by (simp add: bindE_def)

lemma bindE_Inl [simp]: "bindE (Inl e) f = Inl e"
  by (simp add: bindE_def)

lemma getitem_in [simp]: "i < length xs \<Longrightarrow> getitem xs i = Inr (xs ! i)"
  by (simp add: getitem_def)

lemma setitem_in [simp]: "i < length xs \<Longrightarrow> setitem xs i v = Inr (xs[i := v])"
  by (simp add: setitem_def)

lemma length_row_ref [simp]: "length (row_ref a b i) = Suc (length b)"
  by (simp add: row_ref_def)

lemma nth_row_ref [simp]: "j \<le> length b \<Longrightarrow> row_ref a b i ! j = dp_ref a b i j"
  unfolding row_ref_def by (simp add: nth_map_upt del: upt_Suc)

lemma dp_ref_col0 [simp]: "dp_ref a b i 0 = 0"
  by (cases i) simp_all

lemma row_ref_0: "row_ref a b 0 = replicate (Suc (length b)) 0"
  by (rule nth_equalityI) (simp_all add: less_Suc_eq_le del: replicate_Suc)

lemma rolling_flip: "rolling (Suc i) c p = rolling i p c"
  by (auto simp: rolling_def mod_Suc)

lemma lcs_cell_step:
  assumes i: "0 < i" "i \<le> length a" and j: "j < length b"
    and c: "length c = Suc (length b)" "c ! j = dp_ref a b i j"
  shows "lcs_cell a b i (Suc j) (rolling i c (row_ref a b (i - 1)))
         = Inr (rolling i (c[Suc j := dp_ref a b i (Suc j)]) (row_ref a b (i - 1)))"
proof -
  obtain k where k: "i = Suc k" using i by (cases i) auto
  have par: "(i - 1) mod 2 \<noteq> i mod 2" "i mod 2 < 2" "(i - 1) mod 2 < 2"
    using k by (auto simp: mod_Suc)
  have "(i mod 2 = 0 \<and> (i - 1) mod 2 = 1) \<or> (i mod 2 = 1 \<and> (i - 1) mod 2 = 0)"
    using k by (auto simp: mod_Suc)
  then show ?thesis
    using i j c k
    by (auto simp: lcs_cell_def rolling_def Let_def)
qed

lemma lcs_row_from:
  assumes i: "0 < i" "i \<le> length a"
  shows "j \<le> length b \<Longrightarrow> length c = Suc (length b) \<Longrightarrow> \<forall>k\<le>j. c ! k = dp_ref a b i k \<Longrightarrow>
         for_loop [Suc j..<Suc (length b)] (rolling i c (row_ref a b (i - 1))) (lcs_cell a b i)
         = Inr (rolling i (row_ref a b i) (row_ref a b (i - 1)))"
proof (induction "length b - j" arbitrary: j c)
  case 0
  then have "j = length b" by simp
  with 0 have "c = row_ref a b i"
    by (intro nth_equalityI) (simp_all add: less_Suc_eq_le)
  with \<open>j = length b\<close> show ?case by simp
next
  case (Suc d)
  then have jlt: "j < length b" by simp
  let ?c = "c[Suc j := dp_ref a b i (Suc j)]"
  have step: "lcs_cell a b i (Suc j) (rolling i c (row_ref a b (i - 1)))
              = Inr (rolling i ?c (row_ref a b (i - 1)))"
    using i jlt Suc.prems by (intro lcs_cell_step) simp_all
  have agree: "\<forall>k\<le>Suc j. ?c ! k = dp_ref a b i k"
    using Suc.prems jlt by (auto simp: nth_list_update le_Suc_eq)
  have "for_loop [Suc (Suc j)..<Suc (length b)] (rolling i ?c (row_ref a b (i - 1))) (lcs_cell a b i)
        = Inr (rolling i (row_ref a b i) (row_ref a b (i - 1)))"
    using Suc.hyps(2) jlt Suc.prems agree by (intro Suc.hyps(1)) simp_all
  moreover have "[Suc j..<Suc (length b)] = Suc j # [Suc (Suc j)..<Suc (length b)]"
    using jlt by (simp add: upt_conv_Cons del: upt_Suc)
  ultimately show ?case using step by simp
qed

lemma lcs_row_step:
  assumes i: "0 < i" "i \<le> length a" and c: "length c = Suc (length b)" "c ! 0 = 0"
  shows "lcs_row a b i (rolling i c (row_ref a b (i - 1)))
         = Inr (rolling i (row_ref a b i) (row_ref a b (i - 1)))"
  unfolding lcs_row_def range_py_def
  using lcs_row_from [OF i, of 0 b c] c by simp

lemma lcs_rows_from:
  "0 < i \<Longrightarrow> i \<le> length a \<Longrightarrow>
   for_loop [Suc i..<Suc (length a)] (rolling i (row_ref a b i) (row_ref a b (i - 1))) (lcs_row a b)
   = Inr (rolling (length a) (row_ref a b (length a)) (row_ref a b (length a - 1)))"
proof (induction "length a - i" arbitrary: i)
  case 0
  then show ?case by simp
next
  case (Suc d)
  then have ilt: "i < length a" by simp
  have "lcs_row a b (Suc i) (rolling (Suc i) (row_ref a b (i - 1)) (row_ref a b (Suc i - 1)))
        = Inr (rolling (Suc i) (row_ref a b (Suc i)) (row_ref a b (Suc i - 1)))"
    using ilt by (intro lcs_row_step) simp_all
  then have step: "lcs_row a b (Suc i) (rolling i (row_ref a b i) (row_ref a b (i - 1)))
        = Inr (rolling (Suc i) (row_ref a b (Suc i)) (row_ref a b i))"
    by (simp add: rolling_flip)
  have "for_loop [Suc (Suc i)..<Suc (length a)]
          (rolling (Suc i) (row_ref a b (Suc i)) (row_ref a b (Suc i - 1))) (lcs_row a b)
        = Inr (rolling (length a) (row_ref a b (length a)) (row_ref a b (length a - 1)))"
    using Suc.hyps(2) ilt by (intro Suc.hyps(1)) simp_all
  moreover have "[Suc i..<Suc (length a)] = Suc i # [Suc (Suc i)..<Suc (length a)]"
    using ilt by (simp add: upt_conv_Cons del: upt_Suc)
  ultimately show ?case using step by simp
qed

lemma lcs_rows_all:
  assumes "0 < length a"
  shows "for_loop (range_py 1 (length a + 1))
           [replicate (length b + 1) 0, replicate (length b + 1) 0] (lcs_row a b)
         = Inr (rolling (length a) (row_ref a b (length a)) (row_ref a b (length a - 1)))"
proof -
  let ?z = "replicate (Suc (length b)) (0::int)"
  have init: "[?z, ?z] = rolling 1 ?z (row_ref a b (1 - 1))"
    by (simp add: rolling_def row_ref_0 del: replicate_Suc)
  have first: "lcs_row a b 1 [?z, ?z] = Inr (rolling 1 (row_ref a b 1) (row_ref a b (1 - 1)))"
    unfolding init using assms by (intro lcs_row_step) (simp_all add: Suc_le_eq)
  have "[1..<Suc (length a)] = 1 # [Suc 1..<Suc (length a)]"
    using assms by (simp add: upt_conv_Cons del: upt_Suc)
  then show ?thesis
    unfolding range_py_def
    using first lcs_rows_from [of 1 a b] assms
    by (simp del: upt_Suc replicate_Suc)
qed

lemma calculate_lcs_length_dp_ref:
  "calculate_lcs_length a b = Inr (dp_ref a b (length a) (length b))"
proof (cases "length a = 0 \<or> length b = 0")
  case True
  then show ?thesis
    by (cases "length a") (auto simp: calculate_lcs_length_def)
next
  case False
  then have "0 < length a" by simp
  from lcs_rows_all [OF this, of b] False show ?thesis
    by (simp add: calculate_lcs_length_def Let_def rolling_def del: replicate_Suc)
qed

section \<open>The full table holds the same entries\<close>

lemma full_row_prefix:
  "k \<le> length b \<Longrightarrow>
   fold (\<lambda>j row. row @ [if a ! i = b ! (j - 1) then row_ref a b i ! (j - 1) + 1
                         else max (row_ref a b i ! j) (row ! (j - 1))])
     [1..<Suc k] [0]
   = map (dp_ref a b (Suc i)) [0..<Suc k]"
proof (induction k)
  case 0
  then show ?case by simp
next
  case (Suc k)
  then have k: "k < length b" by simp
  have nth_k: "map (dp_ref a b (Suc i)) [0..<Suc k] ! k = dp_ref a b (Suc i) k"
    by (simp add: nth_map_upt del: upt_Suc)
  have ext: "map (dp_ref a b (Suc i)) [0..<Suc (Suc k)]
             = map (dp_ref a b (Suc i)) [0..<Suc k] @ [dp_ref a b (Suc i) (Suc k)]"
    by simp
  have "[1..<Suc (Suc k)] = [1..<Suc k] @ [Suc k]" by simp
  then show ?case
    using Suc.IH k nth_k ext by (simp del: upt_Suc)
qed

lemma full_row_row_ref:
  "full_row (a ! i) b (row_ref a b i) = row_ref a b (Suc i)"
  unfolding full_row_def row_ref_def [of a b "Suc i"]
  using full_row_prefix [of "length b" b a i] by simp

lemma full_table_prefix:
  "k \<le> length a \<Longrightarrow>
   fold (\<lambda>i dp. dp @ [full_row (a ! (i - 1)) b (dp ! (i - 1))])
     [1..<Suc k] [replicate (length b + 1) 0]
   = map (row_ref a b) [0..<Suc k]"
proof (induction k)
  case 0
  then show ?case by (simp add: row_ref_0)
next
  case (Suc k)
  have nth_k: "map (row_ref a b) [0..<Suc k] ! k = row_ref a b k"
    by (simp add: nth_map_upt del: upt_Suc)
  have ext: "map (row_ref a b) [0..<Suc (Suc k)]
             = map (row_ref a b) [0..<Suc k] @ [row_ref a b (Suc k)]"
    by simp
  have "[1..<Suc (Suc k)] = [1..<Suc k] @ [Suc k]" by simp
  then show ?case
    using Suc nth_k ext by (simp add: full_row_row_ref del: upt_Suc replicate_Suc)
qed

lemma lcs_full_table_dp_ref:
  "lcs_full_table a b = dp_ref a b (length a) (length b)"
proof -
  have "full_table a b = map (row_ref a b) [0..<Suc (length a)]"
    unfolding full_table_def using full_table_prefix [of "length a" a b] by simp
  then show ?thesis
    by (simp add: lcs_full_table_def nth_map_upt del: upt_Suc)
qed

section \<open>The table entries are the lengths of longest common subsequences\<close>

lemma subseq_rev: "subseq xs ys \<Longrightarrow> subseq (rev xs) (rev ys)"
proof (induction rule: list_emb.induct)
  case (list_emb_Nil ys)
  then show ?case by simp
next
  case (list_emb_Cons xs ys y)
  then show ?case by (simp add: subseq_rev_drop_many)
next
  case (list_emb_Cons2 x y xs ys)
  then show ?case by (simp add: list_emb_append_mono)
qed

lemma subseq_rev_iff: "subseq (rev xs) (rev ys) \<longleftrightarrow> subseq xs ys"
  using subseq_rev [of xs ys] subseq_rev [of "rev xs" "rev ys"] by auto

lemma lcs_len_upper:
  "subseq s xs \<Longrightarrow> subseq s ys \<Longrightarrow> length s \<le> lcs_len xs ys"
proof (induction xs ys arbitrary: s rule: lcs_len.induct)
  case (1 ys)
  then show ?case by simp
next
  case (2 x xs)
  then show ?case by simp
next
  case (3 x xs y ys)
  show ?case
  proof (cases s)
    case Nil
    then show ?thesis by simp
  next
    case (Cons z zs)
    show ?thesis
    proof (cases "x = y")
      case True
      have "subseq zs xs" "subseq zs ys"
        using "3.prems" Cons by (auto simp: subseq_Cons' split: if_splits)
      then have "length zs \<le> lcs_len xs ys"
        using "3.IH"(1) True by simp
      then show ?thesis using Cons True by simp
    next
      case False
      then have "z \<noteq> x \<or> z \<noteq> y" by auto
      then have "subseq s xs \<or> subseq s ys"
        using "3.prems" Cons by (auto split: if_splits)
      then have "length s \<le> lcs_len xs (y # ys) \<or> length s \<le> lcs_len (x # xs) ys"
        using "3.IH"(2,3) False "3.prems" by blast
      then show ?thesis using False by auto
    qed
  qed
qed

lemma lcs_len_attained:
  "\<exists>s. subseq s xs \<and> subseq s ys \<and> length s = lcs_len xs ys"
proof (induction xs ys rule: lcs_len.induct)
  case (1 ys)
  then show ?case by simp
next
  case (2 x xs)
  then show ?case by simp
next
  case (3 x xs y ys)
  show ?case
  proof (cases "x = y")
    case True
    with "3.IH"(1) obtain s where "subseq s xs" "subseq s ys" "length s = lcs_len xs ys"
      by auto
    then have "subseq (x # s) (x # xs) \<and> subseq (x # s) (y # ys)
               \<and> length (x # s) = lcs_len (x # xs) (y # ys)"
      using True by simp
    then show ?thesis by blast
  next
    case False
    from "3.IH"(2) [OF False] obtain s where
      s: "subseq s xs" "subseq s (y # ys)" "length s = lcs_len xs (y # ys)" by auto
    from "3.IH"(3) [OF False] obtain t where
      t: "subseq t (x # xs)" "subseq t ys" "length t = lcs_len (x # xs) ys" by auto
    show ?thesis
    proof (cases "lcs_len (x # xs) ys \<le> lcs_len xs (y # ys)")
      case True
      then have "subseq s (x # xs) \<and> subseq s (y # ys) \<and> length s = lcs_len (x # xs) (y # ys)"
        using s False by (simp add: max_def list_emb_Cons)
      then show ?thesis by blast
    next
      case le: False
      then have "subseq t (x # xs) \<and> subseq t (y # ys) \<and> length t = lcs_len (x # xs) (y # ys)"
        using t False by (simp add: max_def list_emb_Cons)
      then show ?thesis by blast
    qed
  qed
qed

lemma finite_common_subseq_lengths: "finite (common_subseq_lengths a b)"
proof -
  have "common_subseq_lengths a b \<subseteq> {..length a}"
    by (auto simp: common_subseq_lengths_def dest: list_emb_length)
  then show ?thesis by (rule finite_subset) simp
qed

lemma Max_common_subseq_lengths:
  "Max (common_subseq_lengths a b) = lcs_len (rev a) (rev b)"
proof (rule Max_eqI)
  show "finite (common_subseq_lengths a b)" by (rule finite_common_subseq_lengths)
next
  fix k assume "k \<in> common_subseq_lengths a b"
  then obtain s where "subseq s a" "subseq s b" "k = length s"
    by (auto simp: common_subseq_lengths_def)
  then have "subseq (rev s) (rev a)" "subseq (rev s) (rev b)"
    by (simp_all add: subseq_rev)
  then have "length (rev s) \<le> lcs_len (rev a) (rev b)" by (rule lcs_len_upper)
  then show "k \<le> lcs_len (rev a) (rev b)" using \<open>k = length s\<close> by simp
next
  obtain s where s: "subseq s (rev a)" "subseq s (rev b)" "length s = lcs_len (rev a) (rev b)"
    using lcs_len_attained [of "rev a" "rev b"] by auto
  then have "subseq (rev s) a" "subseq (rev s) b"
    using subseq_rev [of s "rev a"] subseq_rev [of s "rev b"] by simp_all
  then have "length (rev s) \<in> common_subseq_lengths a b"
    unfolding common_subseq_lengths_def by blast
  then show "lcs_len (rev a) (rev b) \<in> common_subseq_lengths a b" using s by simp
qed

lemma dp_ref_lcs_len:
  "i \<le> length a \<Longrightarrow> j \<le> length b \<Longrightarrow>
   dp_ref a b i j = int (lcs_len (rev (take i a)) (rev (take j b)))"
proof (induction a b i j rule: dp_ref.induct)
  case (1 a b j)
  then show ?case by simp
next
  case (2 a b i)
  then show ?case by (simp add: take_Suc_conv_app_nth)
next
  case (3 a b i j)
  then have lt: "i < length a" "j < length b" by simp_all
  then show ?case
    using 3 by (simp add: take_Suc_conv_app_nth max_def)
qed

lemma dp_ref_Max:
  "dp_ref a b (length a) (length b) = int (Max (common_subseq_lengths a b))"
  by (simp add: dp_ref_lcs_len Max_common_subseq_lengths)

lemma lcs_len_le: "lcs_len xs ys \<le> min (length xs) (length ys)"
  by (induction xs ys rule: lcs_len.induct) auto

lemma lcs_len_same: "lcs_len xs xs = length xs"
  by (induction xs) auto

section \<open>The normalization steps\<close>

lemma class_matches_symbol: "class_matches True symbol_class c \<longleftrightarrow> \<not> allowed_domain c"
  by (auto simp: class_matches_def symbol_class_def allowed_domain_def)

lemma re_sub_class_replace:
  "re_sub_class True symbol_class (ascii '' '') s = replace_disallowed s"
  by (induction s) (simp_all add: re_sub_class_def replace_disallowed_def class_matches_symbol)

lemma re_sub_space_runs_nonspace:
  "\<not> is_space c \<Longrightarrow> re_sub_space_runs repl (c # s) = c # re_sub_space_runs repl s"
  by (cases s) simp_all

lemma re_sub_space_runs_prefix:
  "list_all (\<lambda>x. \<not> is_space x) t \<Longrightarrow>
   re_sub_space_runs repl (t @ s) = t @ re_sub_space_runs repl s"
  by (induction t) (simp_all add: re_sub_space_runs_nonspace)

lemma re_sub_space_runs_collapse:
  "re_sub_space_runs [of_char CHR '' ''] s = collapse_runs s"
proof (induction "length s" arbitrary: s rule: less_induct)
  case less
  show ?case
  proof (cases s)
    case Nil
    then show ?thesis by (simp add: collapse_runs_def)
  next
    case (Cons c cs)
    let ?same = "\<lambda>x. is_space x = is_space c"
    let ?tw = "takeWhile ?same cs" and ?dw = "dropWhile ?same cs"
    have split: "cs = ?tw @ ?dw" by simp
    have len: "length ?dw < length s"
      using Cons length_dropWhile_le [of ?same cs] by simp
    have IH: "re_sub_space_runs [of_char CHR '' ''] ?dw = collapse_runs ?dw"
      using len by (rule less)
    have unfold: "collapse_runs s =
        (if 2 \<le> length (c # ?tw) \<and> list_all is_space (c # ?tw) then [of_char CHR '' ''] else c # ?tw)
        @ collapse_runs ?dw"
      using Cons by (simp add: collapse_runs_def)
    show ?thesis
    proof (cases "is_space c")
      case False
      then have ns: "list_all (\<lambda>x. \<not> is_space x) (c # ?tw)"
        by (auto simp: list_all_iff dest: set_takeWhileD)
      have "re_sub_space_runs [of_char CHR '' ''] ((c # ?tw) @ ?dw)
            = (c # ?tw) @ re_sub_space_runs [of_char CHR '' ''] ?dw"
        using ns by (rule re_sub_space_runs_prefix)
      then have "re_sub_space_runs [of_char CHR '' ''] s = (c # ?tw) @ collapse_runs ?dw"
        using Cons IH by simp
      moreover have "collapse_runs s = (c # ?tw) @ collapse_runs ?dw"
        using unfold False by simp
      ultimately show ?thesis by simp
    next
      case True
      then have sp: "list_all is_space (c # ?tw)"
        by (auto simp: list_all_iff dest: set_takeWhileD)
      have same: "?same = is_space" using True by auto
      show ?thesis
      proof (cases cs)
        case Nil
        then show ?thesis using Cons by (simp add: collapse_runs_def)
      next
        case (Cons d ds)
        show ?thesis
        proof (cases "is_space d")
          case d: True
          have "re_sub_space_runs [of_char CHR '' ''] s
                = of_char CHR '' '' # re_sub_space_runs [of_char CHR '' ''] (dropWhile is_space ds)"
            using \<open>s = c # cs\<close> Cons True d by simp
          moreover have dw: "?dw = dropWhile is_space ds"
            using Cons d True by simp
          moreover have "2 \<le> length (c # ?tw)"
            using Cons d True by simp
          with sp have cond: "2 \<le> length (c # ?tw) \<and> list_all is_space (c # ?tw)"
            by blast
          have "collapse_runs s = [of_char CHR '' ''] @ collapse_runs ?dw"
            by (subst unfold) (simp only: cond if_True simp_thms)
          ultimately show ?thesis using IH by simp
        next
          case d: False
          have tw: "?tw = []" "?dw = cs" using Cons d True by simp_all
          have "re_sub_space_runs [of_char CHR '' ''] s
                = c # re_sub_space_runs [of_char CHR '' ''] cs"
            using \<open>s = c # cs\<close> Cons d by simp
          then show ?thesis using unfold tw IH by simp
        qed
      qed
    qed
  qed
qed

lemma str_strip_trim: "str_strip s = trim s"
proof -
  have "rev (dropWhile is_space (rev t)) = take (length t - length (takeWhile is_space (rev t))) t" for t
    by (simp add: dropWhile_eq_drop rev_drop)
  then show ?thesis
    by (simp add: str_strip_def trim_def Let_def dropWhile_eq_drop)
qed

section \<open>The similarity score\<close>

lemma standardize_text_total:
  "truth_value v = Inr tv \<Longrightarrow> \<exists>t. standardize_text lower v = Inr t"
  by (cases v) (simp_all add: standardize_text_def call_lower_def Let_def)

lemma standardize_text_raises:
  "truth_value v = Inl e \<Longrightarrow> standardize_text lower v = Inl e"
  by (simp add: standardize_text_def)

lemma standardize_text_str: "\<exists>t. standardize_text lower (PStr s) = Inr t"
  by (rule standardize_text_total [of _ "s \<noteq> []"]) simp


lemma tokens_of_total: "truth_value v = Inr tv \<Longrightarrow> \<exists>ts. tokens_of lower v = Inr ts"
  using standardize_text_total [of v tv lower] by (auto simp: tokens_of_def)

lemma tokens_of_str: "\<exists>ts. tokens_of lower (PStr s) = Inr ts"
  using standardize_text_str [of lower s] by (auto simp: tokens_of_def)

lemma tokens_of_standardize:
  assumes "tokens_of lower v = Inr ts"
  shows "\<exists>c. standardize_text lower v = Inr c \<and> ts = tokenize_content c"
  using assms by (cases "standardize_text lower v") (auto simp: tokens_of_def)

lemma doublings_unfold:
  "doublings n x = (if n = 0 then 0 else if 1 \<le> x then 0 else Suc (doublings (n - 1) (2 * x)))"
  by (cases n) simp_all

lemma halvings_unfold:
  "halvings n x = (if n = 0 then 0 else if x < 2 then 0 else Suc (halvings (n - 1) (x / 2)))"
  by (cases n) simp_all

lemma binade_le_0: "x \<le> 1 \<Longrightarrow> binade x \<le> 0"
  by (simp add: binade_def halvings_unfold [of 1024])

lemma to_double_scaled:
  assumes "\<bar>x\<bar> \<le> 1"
  shows "\<exists>m. to_double x = of_int (round_half_even (x * 2 ^ m)) / 2 ^ m"
proof -
  have "\<not> 0 \<le> binade \<bar>x\<bar> - 52"
    using binade_le_0 [OF assms] by simp
  then show ?thesis
    unfolding to_double_def Let_def by auto
qed

lemma round_half_even_int: "round_half_even (of_int k) = k"
  by (simp add: round_half_even_def)

lemma round_half_even_bounds:
  assumes "0 \<le> x" "x \<le> of_int N"
  shows "0 \<le> round_half_even x \<and> round_half_even x \<le> N"
proof -
  have f0: "0 \<le> \<lfloor>x\<rfloor>" using assms(1) by simp
  have fN: "\<lfloor>x\<rfloor> \<le> N" using assms(2) by (simp add: floor_le_iff)
  show ?thesis
  proof (cases "\<lfloor>x\<rfloor> = N")
    case True
    then have "x - of_int \<lfloor>x\<rfloor> \<le> 0" using assms(2) by simp
    then show ?thesis using True f0 by (simp add: round_half_even_def Let_def)
  next
    case False
    then have "\<lfloor>x\<rfloor> + 1 \<le> N" using fN by simp
    then show ?thesis using f0 fN by (auto simp: round_half_even_def Let_def)
  qed
qed

lemma scaled_unit:
  assumes "0 \<le> x" "x \<le> 1" "0 < (d :: rat)" "d = of_int D"
  shows "0 \<le> of_int (round_half_even (x * d)) / d \<and> of_int (round_half_even (x * d)) / d \<le> 1"
proof -
  have "0 \<le> x * d" using assms(1,3) by simp
  moreover have "x * d \<le> of_int D"
    using assms by (simp add: mult_left_le_one_le)
  ultimately have b: "0 \<le> round_half_even (x * d) \<and> round_half_even (x * d) \<le> D"
    by (rule round_half_even_bounds)
  then have "(of_int (round_half_even (x * d)) :: rat) \<le> of_int D"
    by (simp only: of_int_le_iff)
  then show ?thesis using b assms(3,4) by (simp add: divide_le_eq)
qed

lemma to_double_unit:
  assumes "0 \<le> x" "x \<le> 1"
  shows "0 \<le> to_double x \<and> to_double x \<le> 1"
proof -
  obtain m where m: "to_double x = of_int (round_half_even (x * 2 ^ m)) / 2 ^ m"
    using to_double_scaled [of x] assms by auto
  show ?thesis
    unfolding m using assms by (intro scaled_unit [where D = "2 ^ m"]) simp_all
qed

lemma to_double_zero: "to_double 0 = 0"
proof -
  obtain m where "to_double 0 = of_int (round_half_even (0 * 2 ^ m)) / 2 ^ m"
    using to_double_scaled [of 0] by auto
  then show ?thesis using round_half_even_int [of 0] by simp
qed

lemma to_double_one: "to_double 1 = 1"
proof -
  have "binade 1 = 0" by (simp add: binade_def halvings_unfold [of 1024])
  moreover have "round_half_even (of_int (2 ^ 52)) = 2 ^ 52" by (rule round_half_even_int)
  ultimately show ?thesis by (simp add: to_double_def)
qed

lemma to_double_half: "to_double (1 / 2) = 1 / 2"
proof -
  have "doublings 1022 (1 / 2) = 1"
    by (simp add: doublings_unfold [of 1022] doublings_unfold [of 1021])
  then have "binade (1 / 2) = - 1" by (simp add: binade_def)
  moreover have "round_half_even (of_int (2 ^ 52)) = 2 ^ 52" by (rule round_half_even_int)
  ultimately show ?thesis by (simp add: to_double_def)
qed

lemma round_digits_zero: "round_digits 0 n = 0"
  using round_half_even_int [of 0] by (simp add: round_digits_def to_double_zero)

lemma round_digits_one: "round_digits 1 n = 1"
proof -
  have "round_half_even (of_int (10 ^ n)) = 10 ^ n" by (rule round_half_even_int)
  then show ?thesis by (simp add: round_digits_def to_double_one)
qed

lemma round_digits_half: "round_digits (1 / 2) 4 = 1 / 2"
proof -
  have "round_half_even (of_int 5000) = 5000" by (rule round_half_even_int)
  then show ?thesis by (simp add: round_digits_def to_double_half)
qed

lemma round_digits_unit:
  assumes "0 \<le> x" "x \<le> 1"
  shows "0 \<le> round_digits x n \<and> round_digits x n \<le> 1"
proof -
  have "0 \<le> of_int (round_half_even (x * 10 ^ n)) / (10 ^ n :: rat)
        \<and> of_int (round_half_even (x * 10 ^ n)) / (10 ^ n :: rat) \<le> 1"
    using assms by (intro scaled_unit [where D = "10 ^ n"]) simp_all
  then show ?thesis
    unfolding round_digits_def using to_double_unit by blast
qed

lemma no_overflow_unit: "0 \<le> x \<Longrightarrow> x \<le> 1 \<Longrightarrow> \<not> double_overflow x"
proof -
  assume "0 \<le> x" "x \<le> 1"
  moreover have "(1 :: rat) < 2 ^ 1024" by simp
  ultimately show ?thesis by (simp add: double_overflow_def)
qed

lemma py_round_unit:
  "0 \<le> x \<Longrightarrow> x \<le> 1 \<Longrightarrow> py_round x n = Inr (round_digits x n)"
  using round_digits_unit [of x n] no_overflow_unit [of "round_digits x n"]
  by (simp add: py_round_def Let_def)

lemma true_div_unit:
  assumes "0 \<le> a" "a \<le> b" "0 < b"
  shows "true_div a b = Inr (to_double (of_int a / of_int b))"
proof -
  have "0 \<le> (of_int a / of_int b :: rat)" "(of_int a / of_int b :: rat) \<le> 1"
    using assms by simp_all
  then have "\<not> double_overflow (to_double (of_int a / of_int b))"
    using to_double_unit no_overflow_unit by blast
  then show ?thesis using assms(3) by (simp add: true_div_def Let_def)
qed

text \<open>The score in closed form: the ratio of the LCS length to the token count of the first text.\<close>

lemma dp_ref_nonneg: "0 \<le> dp_ref a b i j"
  by (induction a b i j rule: dp_ref.induct) auto

lemma calculate_lcs_length_Max:
  "calculate_lcs_length a b = Inr (int (Max (common_subseq_lengths a b)))"
  by (simp add: calculate_lcs_length_dp_ref dp_ref_Max)

lemma calculate_lcs_length_lcs_len:
  "calculate_lcs_length a b = Inr (int (lcs_len (rev a) (rev b)))"
  by (simp add: calculate_lcs_length_dp_ref dp_ref_lcs_len)

lemma similarity_formula:
  assumes "tokens_of lower a = Inr ta" "tokens_of lower b = Inr tb"
  shows "compute_textual_similarity lower a b
         = Inr (round_digits
                  (max 0 (min 1 (to_double
                     (of_int (int (lcs_len (rev ta) (rev tb)))
                      / of_int (if length ta \<noteq> 0 then int (length ta) else 1))))) 4)"
proof -
  obtain ca where ca: "standardize_text lower a = Inr ca" "ta = tokenize_content ca"
    using tokens_of_standardize [OF assms(1)] by blast
  obtain cb where cb: "standardize_text lower b = Inr cb" "tb = tokenize_content cb"
    using tokens_of_standardize [OF assms(2)] by blast
  let ?l = "int (lcs_len (rev ta) (rev tb))"
  let ?d = "if length ta \<noteq> 0 then int (length ta) else 1"
  have l: "0 \<le> ?l" "?l \<le> ?d" "0 < ?d"
    using lcs_len_le [of "rev ta" "rev tb"] by (cases ta; simp)+
  have div: "true_div ?l ?d = Inr (to_double (of_int ?l / of_int ?d))"
    using l by (rule true_div_unit)
  have "0 \<le> (of_int ?l / of_int ?d :: rat)" "(of_int ?l / of_int ?d :: rat) \<le> 1"
    using l by simp_all
  then have u: "0 \<le> to_double (of_int ?l / of_int ?d)" "to_double (of_int ?l / of_int ?d) \<le> 1"
    using to_double_unit by blast+
  have rnd: "py_round (max 0 (min 1 (to_double (of_int ?l / of_int ?d)))) 4
             = Inr (round_digits (max 0 (min 1 (to_double (of_int ?l / of_int ?d)))) 4)"
    using u by (intro py_round_unit) simp_all
  show ?thesis
    by (simp only: compute_textual_similarity_def ca(1) cb(1) bindE_Inr Let_def
          ca(2) [symmetric] cb(2) [symmetric] calculate_lcs_length_lcs_len div rnd)
qed

lemma similarity_empty:
  assumes "tokens_of lower a = Inr ta" "tokens_of lower b = Inr tb" "ta = [] \<or> tb = []"
  shows "compute_textual_similarity lower a b = Inr 0"
proof -
  have "lcs_len (rev ta) (rev tb) = 0"
    using assms(3) lcs_len_le [of "rev ta" "rev tb"] by auto
  then show ?thesis
    unfolding similarity_formula [OF assms(1,2)] by (simp add: round_digits_zero to_double_zero)
qed

lemma similarity_same:
  assumes "tokens_of lower t = Inr ts" "ts \<noteq> []"
  shows "compute_textual_similarity lower t t = Inr 1"
  unfolding similarity_formula [OF assms(1) assms(1)]
  using assms(2) by (simp add: lcs_len_same round_digits_one to_double_one)

lemma similarity_bounds:
  assumes "tokens_of lower a = Inr ta" "tokens_of lower b = Inr tb"
  shows "\<exists>r. compute_textual_similarity lower a b = Inr r \<and> 0 \<le> r \<and> r \<le> 1"
  unfolding similarity_formula [OF assms]
  by (simp add: round_digits_unit)

lemma similarity_raises:
  assumes "compute_textual_similarity lower a b = Inl e"
  shows "truth_value a = Inl e \<or> truth_value b = Inl e"
proof (cases "truth_value a")
  case (Inl ea)
  then show ?thesis
    using assms standardize_text_raises [OF Inl, of lower]
    by (simp add: compute_textual_similarity_def)
next
  case a: (Inr va)
  show ?thesis
  proof (cases "truth_value b")
    case (Inl eb)
    obtain ca where "standardize_text lower a = Inr ca"
      using standardize_text_total [OF a] by blast
    then show ?thesis
      using assms standardize_text_raises [OF Inl, of lower] Inl
      by (simp add: compute_textual_similarity_def)
  next
    case (Inr vb)
    obtain ta tb where "tokens_of lower a = Inr ta" "tokens_of lower b = Inr tb"
      using tokens_of_total [OF a] tokens_of_total [OF Inr] by blast
    then show ?thesis using similarity_bounds assms by fastforce
  qed
qed

section \<open>Texts on which \<open>str.lower\<close> is the ASCII mapping\<close>

lemma ascii_lower_conforms: "lower_conforms (map ascii_lower)"
  by (auto simp: lower_conforms_def list_all_iff ascii_lower_def)

lemma standardize_text_plain:
  assumes "lower_conforms lower" "list_all plain_char s"
  shows "standardize_text lower (PStr s) = standardize_text (map ascii_lower) (PStr s)"
proof -
  have "lower s = map ascii_lower s"
    using assms by (simp add: lower_conforms_def)
  then show ?thesis
    by (simp add: standardize_text_def call_lower_def)
qed

lemma tokens_of_plain:
  assumes "lower_conforms lower" "list_all plain_char s"
  shows "tokens_of lower (PStr s) = tokens_of (map ascii_lower) (PStr s)"
  by (simp add: tokens_of_def standardize_text_plain [OF assms])

lemma similarity_plain:
  assumes "lower_conforms lower" "list_all plain_char s" "list_all plain_char t"
  shows "compute_textual_similarity lower (PStr s) (PStr t)
         = compute_textual_similarity (map ascii_lower) (PStr s) (PStr t)"
  by (simp add: compute_textual_similarity_def
        standardize_text_plain [OF assms(1,2)] standardize_text_plain [OF assms(1,3)])

lemmas text_eval = standardize_text_def call_lower_def re_sub_class_def class_matches_def
  symbol_class_def is_space_def str_strip_def ascii_lower_def Let_def tokenize_content_def
  tokens_of_def

section \<open>Concrete scenarios\<close>

lemma lcs_abcd_aced:
  "calculate_lcs_length [''a'', ''b'', ''c'', ''d''] [''a'', ''c'', ''e'', ''d''] = Inr 3"
  by (simp add: calculate_lcs_length_lcs_len)

lemma standardize_hello:
  "standardize_text (map ascii_lower) (PStr (ascii ''Hello, World!'')) = Inr (ascii ''hello world'')"
  by (simp add: text_eval)

lemma standardize_cjk:
  "standardize_text (map ascii_lower)
     (PStr [0x20, 0x20, 0x591A, 0x4E2A, 0x20, 0x20, 0x7A7A, 0x683C, 0x20, 0x20])
   = Inr [0x591A, 0x4E2A, 0x20, 0x7A7A, 0x683C]"
  by (simp add: text_eval)

lemma tokens_hello:
  "tokens_of (map ascii_lower) (PStr (ascii ''hello'')) = Inr [ascii ''hello'']"
  by (simp add: text_eval)

lemma tokens_hello_world:
  "tokens_of (map ascii_lower) (PStr (ascii ''hello world'')) = Inr [ascii ''hello'', ascii ''world'']"
  by (simp add: text_eval)

lemma tokens_goodbye_world:
  "tokens_of (map ascii_lower) (PStr (ascii ''goodbye world'')) = Inr [ascii ''goodbye'', ascii ''world'']"
  by (simp add: text_eval)

lemma tokens_punctuation:
  "tokens_of (map ascii_lower) (PStr (ascii ''?! ,'')) = Inr []"
  by (simp add: text_eval)

lemma similarity_hello_in_hello_world:
  "compute_textual_similarity (map ascii_lower) (PStr (ascii ''hello'')) (PStr (ascii ''hello world'')) = Inr 1"
  unfolding similarity_formula [OF tokens_hello tokens_hello_world]
  by (simp add: round_digits_one to_double_one)

lemma similarity_hello_world_in_hello:
  "compute_textual_similarity (map ascii_lower) (PStr (ascii ''hello world'')) (PStr (ascii ''hello'')) = Inr (1 / 2)"
  unfolding similarity_formula [OF tokens_hello_world tokens_hello]
  by (simp add: round_digits_half to_double_half)

lemma similarity_goodbye:
  "compute_textual_similarity (map ascii_lower) (PStr (ascii ''hello world'')) (PStr (ascii ''goodbye world'')) = Inr (1 / 2)"
  unfolding similarity_formula [OF tokens_hello_world tokens_goodbye_world]
  by (simp add: round_digits_half to_double_half)

section \<open>Tokens survive joining and a second normalization\<close>

lemma ascii_lower_leaves_no_capital: "lower_leaves_no_capital (map ascii_lower)"
  by (auto simp: lower_leaves_no_capital_def list_all_iff ascii_lower_def capital_def)

lemma token_char_not_space: "token_char c \<Longrightarrow> \<not> is_space c"
  by (auto simp: token_char_def is_space_def)

lemma token_char_facts:
  "token_char c \<Longrightarrow> plain_char c \<and> allowed_domain c \<and> ascii_lower c = c"
  by (auto simp: token_char_def plain_char_def allowed_domain_def ascii_lower_def)

lemma space_facts: "is_space 32" "plain_char 32" "allowed_domain 32" "ascii_lower 32 = 32"
  by (simp_all add: is_space_def plain_char_def allowed_domain_def ascii_lower_def)

lemma allowed_not_capital: "allowed_domain c \<Longrightarrow> \<not> capital c \<Longrightarrow> token_char c \<or> is_space c"
  by (auto simp: allowed_domain_def capital_def token_char_def)

lemma set_re_sub_space_runs: "set (re_sub_space_runs repl s) \<subseteq> set s \<union> set repl"
proof (induction repl s rule: re_sub_space_runs.induct)
  case (3 repl c d cs)
  show ?case
  proof (cases "is_space c \<and> is_space d")
    case True
    then have "set (re_sub_space_runs repl (dropWhile is_space cs)) \<subseteq> set cs \<union> set repl"
      using "3.IH"(1) set_dropWhileD [of _ is_space cs] by blast
    then show ?thesis using True by auto
  next
    case False
    then show ?thesis using "3.IH"(2) by auto
  qed
qed simp_all

lemma set_str_strip: "set (str_strip s) \<subseteq> set s"
  unfolding str_strip_def by (auto dest!: set_dropWhileD)

lemma standardize_text_not_text:
  assumes "standardize_text lower v = Inr s" "\<forall>x. v = PStr x \<longrightarrow> x = []"
  shows "s = []"
proof (cases v)
  case (PObject r)
  then show ?thesis
    using assms(1) by (cases r) (simp_all add: standardize_text_def)
qed (use assms in \<open>simp_all add: standardize_text_def\<close>)

lemma standardize_text_chars:
  assumes "lower_leaves_no_capital lower" "standardize_text lower v = Inr s" "c \<in> set s"
  shows "token_char c \<or> is_space c"
proof (cases "\<forall>x. v = PStr x \<longrightarrow> x = []")
  case True
  then have "s = []" using assms(2) standardize_text_not_text by blast
  then show ?thesis using assms(3) by simp
next
  case False
  then obtain x where v: "v = PStr x" "x \<noteq> []" by auto
  have s: "s = str_strip (re_sub_space_runs [32] (replace_disallowed (lower x)))"
    using assms(2) v re_sub_class_replace [of "lower x"]
    by (simp add: standardize_text_def call_lower_def)
  then have "c \<in> set (replace_disallowed (lower x)) \<union> {32}"
    using assms(3) set_str_strip set_re_sub_space_runs [of "[32]"] by fastforce
  then consider "c = 32" | y where "y \<in> set (lower x)" "allowed_domain y" "c = y"
    by (auto simp: replace_disallowed_def split: if_splits)
  then show ?thesis
  proof cases
    case 1
    then show ?thesis by (simp add: space_facts)
  next
    case 2
    then have "\<not> capital c"
      using assms(1) by (auto simp: lower_leaves_no_capital_def list_all_iff)
    then show ?thesis using 2 allowed_not_capital by blast
  qed
qed

declare str_split.simps [simp del]

lemma str_split_Nil: "dropWhile is_space s = [] \<Longrightarrow> str_split s = []"
  by (subst str_split.simps) (simp only: list.case)

lemma str_split_Cons:
  "dropWhile is_space s = c # cs \<Longrightarrow>
   str_split s = takeWhile (\<lambda>x. \<not> is_space x) (c # cs)
                 # str_split (dropWhile (\<lambda>x. \<not> is_space x) cs)"
  by (subst str_split.simps) (simp only: list.case)

lemma str_split_tokens:
  "t \<in> set (str_split s) \<Longrightarrow> t \<noteq> [] \<and> (\<forall>c\<in>set t. \<not> is_space c \<and> c \<in> set s)"
proof (induction s arbitrary: t rule: str_split.induct)
  case (1 s)
  show ?case
  proof (cases "dropWhile is_space s")
    case Nil
    then have "str_split s = []" by (rule str_split_Nil)
    then have "t \<notin> set (str_split s)" by simp
    then show ?thesis using "1.prems" by (rule notE)
  next
    case (Cons c cs)
    have sub: "set (c # cs) \<subseteq> set s"
      using set_dropWhileD [of _ is_space s] unfolding Cons by blast
    have "set (str_split s) = set (takeWhile (\<lambda>x. \<not> is_space x) (c # cs)
                     # str_split (dropWhile (\<lambda>x. \<not> is_space x) cs))"
      by (rule arg_cong [OF str_split_Cons [OF Cons]])
    then have "t \<in> set (takeWhile (\<lambda>x. \<not> is_space x) (c # cs)
                     # str_split (dropWhile (\<lambda>x. \<not> is_space x) cs))"
      using "1.prems" by blast
    then consider
      "t = takeWhile (\<lambda>x. \<not> is_space x) (c # cs)"
      | "t \<in> set (str_split (dropWhile (\<lambda>x. \<not> is_space x) cs))"
      by (auto simp del: takeWhile.simps)
    then show ?thesis
    proof cases
      case 1
      have "\<not> is_space (hd (dropWhile is_space s))"
        by (rule hd_dropWhile) (simp add: Cons)
      then have "\<not> is_space c" unfolding Cons by simp
      then have "t \<noteq> []" using 1 by simp
      moreover have "\<forall>x\<in>set t. \<not> is_space x \<and> x \<in> set s"
        using sub set_takeWhileD [of _ "\<lambda>x. \<not> is_space x" "c # cs"] unfolding 1 by blast
      ultimately show ?thesis by simp
    next
      case 2
      then have "t \<noteq> [] \<and> (\<forall>x\<in>set t. \<not> is_space x \<and> x \<in> set (dropWhile (\<lambda>x. \<not> is_space x) cs))"
        by (rule "1.IH" [OF Cons])
      moreover have "set (dropWhile (\<lambda>x. \<not> is_space x) cs) \<subseteq> set s"
        using sub set_dropWhileD [of _ "\<lambda>x. \<not> is_space x" cs] by auto
      ultimately show ?thesis by blast
    qed
  qed
qed


lemma tokens_of_good:
  assumes "lower_leaves_no_capital lower" "tokens_of lower v = Inr ts"
  shows "list_all good_token ts"
proof -
  obtain s where s: "standardize_text lower v = Inr s" and ts: "ts = tokenize_content s"
    using tokens_of_standardize [OF assms(2)] by blast
  have "good_token t" if "t \<in> set ts" for t
  proof -
    have "t \<in> set (str_split s)"
      using that ts by (cases "s = []") (simp_all add: tokenize_content_def)
    then have t: "t \<noteq> [] \<and> (\<forall>c\<in>set t. \<not> is_space c \<and> c \<in> set s)"
      by (rule str_split_tokens)
    have "token_char c" if "c \<in> set t" for c
    proof -
      have "c \<in> set s" "\<not> is_space c" using t that by blast+
      then show ?thesis using standardize_text_chars [OF assms(1) s, of c] by blast
    qed
    then show ?thesis using t by (simp add: good_token_def list_all_iff)
  qed
  then show ?thesis by (simp add: list_all_iff)
qed

lemma good_token_nonspace: "good_token t \<Longrightarrow> list_all (\<lambda>x. \<not> is_space x) t"
  by (auto simp: good_token_def list_all_iff token_char_not_space)

lemma good_token_ends: "good_token t \<Longrightarrow> t \<noteq> [] \<and> \<not> is_space (hd t) \<and> \<not> is_space (last t)"
  by (auto simp: good_token_def list_all_iff token_char_not_space)

lemma str_join_Cons:
  "str_join sep (t # ts) = (if ts = [] then t else t @ sep @ str_join sep ts)"
  by (cases ts) simp_all

lemma str_join_ends:
  "list_all good_token ts \<Longrightarrow> ts \<noteq> [] \<Longrightarrow>
   str_join [32] ts \<noteq> [] \<and> \<not> is_space (hd (str_join [32] ts))
   \<and> \<not> is_space (last (str_join [32] ts))"
proof (induction ts)
  case Nil
  then show ?case by simp
next
  case (Cons t ts)
  then have t: "t \<noteq> []" "\<not> is_space (hd t)" "\<not> is_space (last t)"
    using good_token_ends [of t] by simp_all
  show ?case
  proof (cases "ts = []")
    case True
    then show ?thesis using t by (simp add: str_join_Cons)
  next
    case False
    then have "str_join [32] ts \<noteq> []" "\<not> is_space (last (str_join [32] ts))"
      using Cons by simp_all
    then show ?thesis using t False by (simp add: str_join_Cons)
  qed
qed

lemma str_join_chars:
  "list_all good_token ts \<Longrightarrow> c \<in> set (str_join [32] ts) \<Longrightarrow> token_char c \<or> c = 32"
proof (induction ts)
  case Nil
  then show ?case by simp
next
  case (Cons t ts)
  then show ?case
    by (cases "ts = []") (auto simp: str_join_Cons good_token_def list_all_iff)
qed

lemma re_sub_space_runs_join:
  "list_all good_token ts \<Longrightarrow> re_sub_space_runs [32] (str_join [32] ts) = str_join [32] ts"
proof (induction ts)
  case Nil
  then show ?case by simp
next
  case (Cons t ts)
  then have t: "list_all (\<lambda>x. \<not> is_space x) t"
    using good_token_nonspace [of t] by simp
  show ?case
  proof (cases "ts = []")
    case True
    then show ?thesis
      using re_sub_space_runs_prefix [OF t, of "[32]" "[]"] by (simp add: str_join_Cons)
  next
    case False
    with Cons have e: "str_join [32] ts \<noteq> []" "\<not> is_space (hd (str_join [32] ts))"
      using str_join_ends [of ts] by simp_all
    then obtain c r where cr: "str_join [32] ts = c # r" "\<not> is_space c"
      by (cases "str_join [32] ts") auto
    have "re_sub_space_runs [32] (32 # c # r) = 32 # re_sub_space_runs [32] (c # r)"
      using cr(2) by simp
    then have "re_sub_space_runs [32] (32 # str_join [32] ts) = 32 # str_join [32] ts"
      using Cons cr(1) by simp
    then show ?thesis
      using re_sub_space_runs_prefix [OF t, of "[32]" "32 # str_join [32] ts"] False
      by (simp add: str_join_Cons)
  qed
qed

lemma str_strip_id:
  assumes "s \<noteq> []" "\<not> is_space (hd s)" "\<not> is_space (last s)"
  shows "str_strip s = s"
proof -
  have 1: "dropWhile is_space s = s"
    using assms(1,2) by (cases s) simp_all
  have "rev s \<noteq> []" "\<not> is_space (hd (rev s))"
    using assms(1,3) by (simp_all add: hd_rev)
  then have 2: "dropWhile is_space (rev s) = rev s"
    by (cases "rev s") simp_all
  show ?thesis by (simp add: str_strip_def 1 2)
qed

lemma str_split_space: "is_space c \<Longrightarrow> str_split (c # s) = str_split s"
proof (cases "dropWhile is_space s")
  case Nil
  assume "is_space c"
  then have "dropWhile is_space (c # s) = []" using Nil by simp
  then show ?thesis using Nil by (simp only: str_split_Nil)
next
  case (Cons d ds)
  assume "is_space c"
  then have "dropWhile is_space (c # s) = d # ds" using Cons by simp
  then show ?thesis using Cons by (simp only: str_split_Cons)
qed

lemma str_split_token_first:
  assumes "t \<noteq> []" "list_all (\<lambda>x. \<not> is_space x) t" "rest = [] \<or> is_space (hd rest)"
  shows "str_split (t @ rest) = t # str_split rest"
proof -
  obtain c t' where t: "t = c # t'" using assms(1) by (cases t) auto
  have c: "\<not> is_space c" and t': "\<forall>x\<in>set t'. \<not> is_space x"
    using assms(2) t by (simp_all add: list_all_iff)
  have stop: "takeWhile (\<lambda>x. \<not> is_space x) rest = []" "dropWhile (\<lambda>x. \<not> is_space x) rest = rest"
    using assms(3) by (cases rest; simp)+
  have "dropWhile is_space (t @ rest) = c # (t' @ rest)"
    using c t by simp
  then have "str_split (t @ rest)
             = takeWhile (\<lambda>x. \<not> is_space x) (c # (t' @ rest))
               # str_split (dropWhile (\<lambda>x. \<not> is_space x) (t' @ rest))"
    by (rule str_split_Cons)
  moreover have "takeWhile (\<lambda>x. \<not> is_space x) (c # (t' @ rest)) = t"
    using c t' t stop by (simp add: takeWhile_append2)
  moreover have "dropWhile (\<lambda>x. \<not> is_space x) (t' @ rest) = rest"
    using t' stop by (simp add: dropWhile_append2)
  ultimately show ?thesis by simp
qed

lemma str_split_join:
  "list_all good_token ts \<Longrightarrow> str_split (str_join [32] ts) = ts"
proof (induction ts)
  case Nil
  then show ?case by (simp add: str_split_Nil)
next
  case (Cons t ts)
  then have t: "t \<noteq> []" "list_all (\<lambda>x. \<not> is_space x) t"
    using good_token_nonspace [of t] good_token_ends [of t] by simp_all
  show ?case
  proof (cases "ts = []")
    case True
    then show ?thesis
      using str_split_token_first [OF t, of "[]"] by (simp add: str_join_Cons str_split_Nil)
  next
    case False
    have "str_split (t @ 32 # str_join [32] ts) = t # str_split (32 # str_join [32] ts)"
      using t by (intro str_split_token_first) (simp_all add: space_facts)
    also have "str_split (32 # str_join [32] ts) = str_split (str_join [32] ts)"
      by (rule str_split_space) (simp add: space_facts)
    finally show ?thesis using Cons False by (simp add: str_join_Cons)
  qed
qed

lemma standardize_text_join:
  assumes "lower_conforms lower" "list_all good_token ts"
  shows "standardize_text lower (PStr (str_join [32] ts)) = Inr (str_join [32] ts)"
proof (cases "ts = []")
  case True
  then show ?thesis by (simp add: standardize_text_def)
next
  case False
  let ?J = "str_join [32] ts"
  have ends: "?J \<noteq> []" "\<not> is_space (hd ?J)" "\<not> is_space (last ?J)"
    using str_join_ends [OF assms(2) False] by simp_all
  have chars: "\<forall>c\<in>set ?J. token_char c \<or> c = 32"
    using str_join_chars [OF assms(2)] by blast
  then have plain: "list_all plain_char ?J"
    using token_char_facts space_facts by (auto simp: list_all_iff)
  have "map ascii_lower ?J = ?J"
    using chars token_char_facts space_facts by (intro map_idI) auto
  then have low: "lower ?J = ?J"
    using assms(1) plain by (simp add: lower_conforms_def)
  have "replace_disallowed ?J = ?J"
    unfolding replace_disallowed_def
    using chars token_char_facts space_facts by (intro map_idI) auto
  then have "str_strip (re_sub_space_runs [32] (re_sub_class True symbol_class [32] (lower ?J))) = ?J"
    using re_sub_class_replace [of ?J] low re_sub_space_runs_join [OF assms(2)] str_strip_id [OF ends]
    by simp
  then show ?thesis
    using ends(1) by (simp add: standardize_text_def call_lower_def)
qed

text \<open>
  Joining the tokens of a text with one space, normalizing and tokenizing again gives
  the same tokens.
\<close>

lemma retokenize_stable:
  assumes "lower_conforms lower" "lower_leaves_no_capital lower" "tokens_of lower t = Inr ts"
  shows "tokens_of lower (PStr (str_join (ascii '' '') ts)) = Inr ts"
proof -
  have good: "list_all good_token ts"
    using assms(2,3) by (rule tokens_of_good)
  have "tokenize_content (str_join [32] ts) = ts"
  proof (cases "ts = []")
    case True
    then show ?thesis by (simp add: tokenize_content_def)
  next
    case False
    then have "str_join [32] ts \<noteq> []" using str_join_ends [OF good] by simp
    then show ?thesis by (simp add: tokenize_content_def str_split_join [OF good])
  qed
  then show ?thesis
    using standardize_text_join [OF assms(1) good] by (simp add: tokens_of_def)
qed

text \<open>
  When both contents are not empty, \<open>calculate_similarity\<close> returns the score that
  \<open>compute_textual_similarity\<close> gives on the raw contents.
\<close>

lemma calculate_similarity_nonempty:
  assumes "lower_conforms lower" "lower_leaves_no_capital lower"
    and "orig \<noteq> []" "plag \<noteq> []"
  shows "\<exists>r self'. compute_textual_similarity lower (PStr orig) (PStr plag) = Inr r
                   \<and> calculate_similarity lower (loaded orig plag) = Inr (r, self')"
proof -
  obtain ca where ca: "standardize_text lower (PStr orig) = Inr ca"
    using standardize_text_str by blast
  obtain cb where cb: "standardize_text lower (PStr plag) = Inr cb"
    using standardize_text_str by blast
  let ?ta = "tokenize_content ca" and ?tb = "tokenize_content cb"
  have ta: "tokens_of lower (PStr orig) = Inr ?ta" and tb: "tokens_of lower (PStr plag) = Inr ?tb"
    by (simp_all add: tokens_of_def ca cb)
  have ja: "tokens_of lower (PStr (str_join (ascii '' '') ?ta)) = Inr ?ta"
    using assms(1,2) ta by (rule retokenize_stable)
  have jb: "tokens_of lower (PStr (str_join (ascii '' '') ?tb)) = Inr ?tb"
    using assms(1,2) tb by (rule retokenize_stable)
  have same: "compute_textual_similarity lower (PStr (str_join (ascii '' '') ?ta))
                (PStr (str_join (ascii '' '') ?tb))
              = compute_textual_similarity lower (PStr orig) (PStr plag)"
    by (simp only: similarity_formula [OF ja jb] similarity_formula [OF ta tb])
  obtain r where r: "compute_textual_similarity lower (PStr orig) (PStr plag) = Inr r"
    using similarity_bounds [OF ta tb] by blast
  have "calculate_similarity lower (loaded orig plag)
        = Inr (r, loaded orig plag\<lparr>tokenized_original := Some ?ta, tokenized_plagiarized := Some ?tb\<rparr>)"
    using assms(3,4) same r
    by (simp add: calculate_similarity_def loaded_def preprocess_texts_def preprocess_side_def
          content_value_def join_optional_def Let_def ca cb)
  with r show ?thesis by blast
qed


section \<open>Properties of the specification\<close>

text \<open>
  C1. For every pair of token sequences, \<open>calculate_lcs_length\<close> returns the length of a
  longest common subsequence: the greatest length of a sequence that is a subsequence
  (in order, not necessarily contiguous) of both. The lengths of the common
  subsequences form a finite set that holds 0, so the maximum exists. On
  \<open>["a","b","c","d"]\<close> and \<open>["a","c","e","d"]\<close> the result is 3.
\<close>

theorem calculate_lcs_length_longest_common_subsequence:
  "finite (common_subseq_lengths a b) \<and> 0 \<in> common_subseq_lengths a b
   \<and> calculate_lcs_length a b = Inr (int (Max (common_subseq_lengths a b)))
   \<and> calculate_lcs_length [''a'', ''b'', ''c'', ''d''] [''a'', ''c'', ''e'', ''d''] = Inr 3"
proof -
  have "subseq [] a \<and> subseq [] b" by simp
  then have "length ([] :: 'a list) \<in> common_subseq_lengths a b"
    unfolding common_subseq_lengths_def by blast
  then have "0 \<in> common_subseq_lengths a b" by simp
  then show ?thesis
    using finite_common_subseq_lengths [of a b] calculate_lcs_length_Max [of a b] lcs_abcd_aced
    by simp
qed

text \<open>
  C2. For every pair of token sequences, the rolling two-row implementation returns
  the value of the reference full-table implementation (base row all zeros, the
  standard recurrence, the answer at row \<open>n\<close>, column \<open>m\<close>).
\<close>

theorem calculate_lcs_length_equals_full_table:
  "calculate_lcs_length a b = Inr (lcs_full_table a b)"
  by (simp add: calculate_lcs_length_dp_ref lcs_full_table_dp_ref)

text \<open>
  C3. If the token sequence of either text is empty, \<open>compute_textual_similarity\<close>
  returns exactly 0 and raises nothing, for all inputs whose truth test returns (every
  string, \<open>None\<close>, numbers, lists); \<open>calculate_lcs_length\<close> returns 0 as soon as one
  sequence is empty.
\<close>

theorem similarity_zero_when_tokens_empty:
  assumes "tokens_of lower text_a = Inr [] \<or> tokens_of lower text_b = Inr []"
    and "truth_value text_a = Inr va" and "truth_value text_b = Inr vb"
  shows "compute_textual_similarity lower text_a text_b = Inr 0
         \<and> calculate_lcs_length [] (tb :: pystr list) = Inr 0
         \<and> calculate_lcs_length (ta :: pystr list) [] = Inr 0"
proof -
  obtain xa xb where t: "tokens_of lower text_a = Inr xa" "tokens_of lower text_b = Inr xb"
    using tokens_of_total [OF assms(2)] tokens_of_total [OF assms(3)] by blast
  with assms(1) have "xa = [] \<or> xb = []" by auto
  with t have "compute_textual_similarity lower text_a text_b = Inr 0"
    by (rule similarity_empty)
  then show ?thesis by (simp add: calculate_lcs_length_def)
qed

theorem similarity_zero_when_tokens_empty_witness:
  "tokens_of (map ascii_lower) (PStr (ascii ''?! ,'')) = Inr []
   \<and> truth_value (PStr (ascii ''?! ,'')) = Inr True
   \<and> truth_value (PStr (ascii ''hello world'')) = Inr True
   \<and> compute_textual_similarity (map ascii_lower) (PStr (ascii ''?! ,'')) (PStr (ascii ''hello world'')) = Inr 0"
  using similarity_zero_when_tokens_empty
          [of "map ascii_lower" "PStr (ascii ''?! ,'')" "PStr (ascii ''hello world'')" True True]
        tokens_punctuation
  by simp

text \<open>
  C4. For every text whose token sequence is not empty, the similarity of the text
  with itself is 1.
\<close>

theorem similarity_identity:
  assumes "tokens_of lower t = Inr ts" and "ts \<noteq> []"
  shows "compute_textual_similarity lower t t = Inr 1"
  using assms by (rule similarity_same)

theorem similarity_identity_witness:
  "tokens_of (map ascii_lower) (PStr (ascii ''hello world'')) = Inr [ascii ''hello'', ascii ''world'']
   \<and> [ascii ''hello'', ascii ''world''] \<noteq> []
   \<and> compute_textual_similarity (map ascii_lower) (PStr (ascii ''hello world'')) (PStr (ascii ''hello world'')) = Inr 1"
  using similarity_identity [OF tokens_hello_world] tokens_hello_world
  by simp

text \<open>
  C5. For every text, \<open>standardize_text\<close> lower-cases, then replaces every character
  outside the allowed domain by one space, then turns every run of two or more
  white-space characters into one space, then trims the white space at both ends.
  \<open>"Hello, World!"\<close> becomes \<open>"hello world"\<close>, and the text of two spaces, U+591A, U+4E2A,
  two spaces, U+7A7A, U+683C, two spaces becomes U+591A, U+4E2A, a space, U+7A7A, U+683C.
\<close>

theorem standardize_text_steps:
  assumes "lower_conforms lower"
  shows "standardize_text lower (PStr s) = Inr (normalize_spec lower s)
         \<and> standardize_text lower (PStr (ascii ''Hello, World!'')) = Inr (ascii ''hello world'')
         \<and> standardize_text lower
              (PStr [0x20, 0x20, 0x591A, 0x4E2A, 0x20, 0x20, 0x7A7A, 0x683C, 0x20, 0x20])
            = Inr [0x591A, 0x4E2A, 0x20, 0x7A7A, 0x683C]"
proof -
  have empty: "lower [] = []"
    using assms by (simp add: lower_conforms_def)
  have steps: "standardize_text lower (PStr s) = Inr (normalize_spec lower s)"
  proof (cases "s = []")
    case True
    then show ?thesis
      by (simp add: standardize_text_def normalize_spec_def empty replace_disallowed_def
            collapse_runs_def trim_def)
  next
    case False
    have "str_strip (re_sub_space_runs (ascii '' '') (re_sub_class True symbol_class (ascii '' '') (lower s)))
          = normalize_spec lower s"
      using re_sub_class_replace [of "lower s"]
            re_sub_space_runs_collapse [of "replace_disallowed (lower s)"]
      by (simp add: normalize_spec_def str_strip_trim)
    then show ?thesis
      using False by (simp add: standardize_text_def call_lower_def)
  qed
  have "list_all plain_char (ascii ''Hello, World!'')"
    by (simp add: plain_char_def)
  then have hello: "standardize_text lower (PStr (ascii ''Hello, World!'')) = Inr (ascii ''hello world'')"
    using standardize_text_plain [OF assms] standardize_hello by simp
  have "list_all plain_char [0x20, 0x20, 0x591A, 0x4E2A, 0x20, 0x20, 0x7A7A, 0x683C, 0x20, 0x20]"
    by (simp add: plain_char_def)
  then have cjk: "standardize_text lower
              (PStr [0x20, 0x20, 0x591A, 0x4E2A, 0x20, 0x20, 0x7A7A, 0x683C, 0x20, 0x20])
            = Inr [0x591A, 0x4E2A, 0x20, 0x7A7A, 0x683C]"
    using standardize_text_plain [OF assms] standardize_cjk by simp
  from steps hello cjk show ?thesis by (intro conjI)
qed

theorem standardize_text_steps_witness:
  "lower_conforms (map ascii_lower)
   \<and> standardize_text (map ascii_lower) (PStr (ascii ''Hello, World!''))
       = Inr (normalize_spec (map ascii_lower) (ascii ''Hello, World!''))
   \<and> normalize_spec (map ascii_lower) (ascii ''Hello, World!'') = ascii ''hello world''"
proof -
  note w = standardize_text_steps [OF ascii_lower_conforms, of "ascii ''Hello, World!''"]
  have 1: "standardize_text (map ascii_lower) (PStr (ascii ''Hello, World!''))
           = Inr (normalize_spec (map ascii_lower) (ascii ''Hello, World!''))"
    using w by (rule conjunct1)
  have 2: "standardize_text (map ascii_lower) (PStr (ascii ''Hello, World!''))
           = Inr (ascii ''hello world'')"
    using w by blast
  have "(Inr (normalize_spec (map ascii_lower) (ascii ''Hello, World!'')) :: error + pystr)
        = Inr (ascii ''hello world'')"
    using 1 2 by (rule trans [OF sym])
  then have 3: "normalize_spec (map ascii_lower) (ascii ''Hello, World!'') = ascii ''hello world''"
    by (simp only: sum.inject)
  from ascii_lower_conforms 1 3 show ?thesis by (intro conjI)
qed

text \<open>
  C6. For every pair of texts, \<open>compute_textual_similarity\<close> returns a score between 0
  and 1, both included; so it does for every pair of values whose truth test returns,
  and a call that raises has raised in the truth test of one of its arguments.
\<close>

theorem similarity_in_unit_interval:
  "(\<exists>r. compute_textual_similarity lower (PStr s) (PStr t) = Inr r \<and> 0 \<le> r \<and> r \<le> 1)
   \<and> ((\<exists>r. compute_textual_similarity lower text_a text_b = Inr r \<and> 0 \<le> r \<and> r \<le> 1)
        \<or> (\<exists>e. compute_textual_similarity lower text_a text_b = Inl e
                \<and> (truth_value text_a = Inl e \<or> truth_value text_b = Inl e)))"
proof -
  obtain ts tt where "tokens_of lower (PStr s) = Inr ts" "tokens_of lower (PStr t) = Inr tt"
    using tokens_of_str by blast
  then have str: "\<exists>r. compute_textual_similarity lower (PStr s) (PStr t) = Inr r \<and> 0 \<le> r \<and> r \<le> 1"
    by (rule similarity_bounds)
  have any: "(\<exists>r. compute_textual_similarity lower text_a text_b = Inr r \<and> 0 \<le> r \<and> r \<le> 1)
        \<or> (\<exists>e. compute_textual_similarity lower text_a text_b = Inl e
                \<and> (truth_value text_a = Inl e \<or> truth_value text_b = Inl e))"
  proof (cases "compute_textual_similarity lower text_a text_b")
    case (Inl e)
    then show ?thesis using similarity_raises [OF Inl] by blast
  next
    case (Inr r)
    have a: "\<exists>va. truth_value text_a = Inr va"
    proof (cases "truth_value text_a")
      case (Inl e)
      then show ?thesis
        using Inr standardize_text_raises [OF Inl, of lower]
        by (simp add: compute_textual_similarity_def)
    qed blast
    have b: "\<exists>vb. truth_value text_b = Inr vb"
    proof (cases "truth_value text_b")
      case (Inl e)
      obtain va where "truth_value text_a = Inr va" using a by blast
      then obtain ca where "standardize_text lower text_a = Inr ca"
        using standardize_text_total by blast
      then show ?thesis
        using Inr standardize_text_raises [OF Inl, of lower]
        by (simp add: compute_textual_similarity_def)
    qed blast
    obtain ta tb where "tokens_of lower text_a = Inr ta" "tokens_of lower text_b = Inr tb"
      using a b tokens_of_total by blast
    then show ?thesis using similarity_bounds by blast
  qed
  from str any show ?thesis by (rule conjI)
qed

theorem similarity_in_unit_interval_witness:
  "\<exists>r. compute_textual_similarity (map ascii_lower)
          (PStr (ascii ''hello world'')) (PStr (ascii ''goodbye world'')) = Inr r
        \<and> 0 \<le> r \<and> r \<le> 1"
  using similarity_in_unit_interval
          [of "map ascii_lower" "ascii ''hello world''" "ascii ''goodbye world''" PNone PNone]
  by (rule conjunct1)

text \<open>
  C8. For every pair of token sequences, the result of \<open>calculate_lcs_length\<close> is at most
  the length of the shorter one (and not negative).
\<close>

theorem calculate_lcs_length_le_min:
  "\<exists>v. calculate_lcs_length a b = Inr v \<and> 0 \<le> v \<and> v \<le> int (min (length a) (length b))"
proof -
  have "lcs_len (rev a) (rev b) \<le> min (length a) (length b)"
    using lcs_len_le [of "rev a" "rev b"] by simp
  then show ?thesis
    by (simp add: calculate_lcs_length_lcs_len)
qed

text \<open>
  C7. The score is the LCS length divided, as a float, by the token count of the first
  text (1 when it has no token), clamped and rounded to 4 digits, so the score is not
  symmetric: there are texts \<open>A\<close> and \<open>B\<close>, \<open>A\<close> the
  shorter and the tokens of \<open>A\<close> a subsequence of the tokens of \<open>B\<close>, with score 1 for
  \<open>(A, B)\<close> and a score below 1 for \<open>(B, A)\<close>.
\<close>

theorem similarity_asymmetric:
  assumes "lower_conforms lower"
    and "tokens_of lower text_a = Inr ta" and "tokens_of lower text_b = Inr tb"
  shows "compute_textual_similarity lower text_a text_b
         = Inr (round_digits
                  (max 0 (min 1 (to_double
                     (of_int (int (Max (common_subseq_lengths ta tb)))
                      / of_int (max 1 (int (length ta))))))) 4)
         \<and> (\<exists>A B tA tB.
               tokens_of lower (PStr A) = Inr tA \<and> tokens_of lower (PStr B) = Inr tB
               \<and> length A < length B \<and> length tA < length tB \<and> subseq tA tB
               \<and> compute_textual_similarity lower (PStr A) (PStr B) = Inr 1
               \<and> (\<exists>r. compute_textual_similarity lower (PStr B) (PStr A) = Inr r \<and> r < 1))"
proof -
  have den: "(if length ta \<noteq> 0 then int (length ta) else 1) = max 1 (int (length ta))"
    by (cases ta) simp_all
  have formula: "compute_textual_similarity lower text_a text_b
         = Inr (round_digits
                  (max 0 (min 1 (to_double
                     (of_int (int (Max (common_subseq_lengths ta tb)))
                      / of_int (max 1 (int (length ta))))))) 4)"
    unfolding similarity_formula [OF assms(2,3)] den
    by (simp only: Max_common_subseq_lengths)
  let ?A = "ascii ''hello''" and ?B = "ascii ''hello world''"
  have pA: "list_all plain_char ?A" and pB: "list_all plain_char ?B"
    by (simp_all add: plain_char_def)
  have tA: "tokens_of lower (PStr ?A) = Inr [ascii ''hello'']"
    using tokens_of_plain [OF assms(1) pA] tokens_hello by simp
  have tB: "tokens_of lower (PStr ?B) = Inr [ascii ''hello'', ascii ''world'']"
    using tokens_of_plain [OF assms(1) pB] tokens_hello_world by simp
  have sAB: "compute_textual_similarity lower (PStr ?A) (PStr ?B) = Inr 1"
    using similarity_plain [OF assms(1) pA pB] similarity_hello_in_hello_world by simp
  have sBA: "compute_textual_similarity lower (PStr ?B) (PStr ?A) = Inr (1 / 2)"
    using similarity_plain [OF assms(1) pB pA] similarity_hello_world_in_hello by simp
  have below: "\<exists>r. compute_textual_similarity lower (PStr ?B) (PStr ?A) = Inr r \<and> r < 1"
    using sBA by (intro exI [of _ "1 / 2"]) simp
  have "tokens_of lower (PStr ?A) = Inr [ascii ''hello'']
        \<and> tokens_of lower (PStr ?B) = Inr [ascii ''hello'', ascii ''world'']
        \<and> length ?A < length ?B
        \<and> length [ascii ''hello''] < length [ascii ''hello'', ascii ''world'']
        \<and> subseq [ascii ''hello''] [ascii ''hello'', ascii ''world'']
        \<and> compute_textual_similarity lower (PStr ?A) (PStr ?B) = Inr 1
        \<and> (\<exists>r. compute_textual_similarity lower (PStr ?B) (PStr ?A) = Inr r \<and> r < 1)"
    using tA tB sAB below by simp
  then have "\<exists>A B tA tB.
               tokens_of lower (PStr A) = Inr tA \<and> tokens_of lower (PStr B) = Inr tB
               \<and> length A < length B \<and> length tA < length tB \<and> subseq tA tB
               \<and> compute_textual_similarity lower (PStr A) (PStr B) = Inr 1
               \<and> (\<exists>r. compute_textual_similarity lower (PStr B) (PStr A) = Inr r \<and> r < 1)"
    by blast
  with formula show ?thesis by (rule conjI)
qed

theorem similarity_asymmetric_witness:
  "lower_conforms (map ascii_lower)
   \<and> tokens_of (map ascii_lower) (PStr (ascii ''hello world'')) = Inr [ascii ''hello'', ascii ''world'']
   \<and> tokens_of (map ascii_lower) (PStr (ascii ''hello'')) = Inr [ascii ''hello'']
   \<and> compute_textual_similarity (map ascii_lower) (PStr (ascii ''hello world'')) (PStr (ascii ''hello''))
       = Inr (round_digits
                (max 0 (min 1 (to_double
                   (of_int (int (Max (common_subseq_lengths
                                        [ascii ''hello'', ascii ''world''] [ascii ''hello''])))
                    / of_int (max 1 (int (length [ascii ''hello'', ascii ''world''])))))))
                4)
   \<and> compute_textual_similarity (map ascii_lower) (PStr (ascii ''hello world'')) (PStr (ascii ''hello''))
       = Inr (1 / 2)"
proof -
  note w = similarity_asymmetric [OF ascii_lower_conforms tokens_hello_world tokens_hello]
  from w have "compute_textual_similarity (map ascii_lower) (PStr (ascii ''hello world'')) (PStr (ascii ''hello''))
       = Inr (round_digits
                (max 0 (min 1 (to_double
                   (of_int (int (Max (common_subseq_lengths
                                        [ascii ''hello'', ascii ''world''] [ascii ''hello''])))
                    / of_int (max 1 (int (length [ascii ''hello'', ascii ''world''])))))))
                4)"
    by (rule conjunct1)
  with ascii_lower_conforms tokens_hello_world tokens_hello similarity_hello_world_in_hello
  show ?thesis by (intro conjI)
qed




text \<open>
  C10. \<open>calculate_similarity\<close> and the empty file: on an object loaded with an empty
  original or an empty suspect text the call raises \<open>RuntimeError\<close> (the token list is
  still \<open>None\<close> when it is joined), where \<open>compute_textual_similarity\<close> on the two raw
  contents returns 0.
\<close>

theorem calculate_similarity_empty_content:
  "calculate_similarity lower (loaded [] plag) = Inl RuntimeError
   \<and> calculate_similarity lower (loaded orig []) = Inl RuntimeError
   \<and> compute_textual_similarity lower (PStr []) (PStr plag) = Inr 0
   \<and> compute_textual_similarity lower (PStr orig) (PStr []) = Inr 0"
proof -
  have e: "tokens_of lower (PStr []) = Inr []"
    by (simp add: tokens_of_def standardize_text_def tokenize_content_def)
  obtain tp where tp: "tokens_of lower (PStr plag) = Inr tp" using tokens_of_str by blast
  obtain tq where tq: "tokens_of lower (PStr orig) = Inr tq" using tokens_of_str by blast
  obtain cp where cp: "standardize_text lower (PStr plag) = Inr cp"
    using standardize_text_str by blast
  obtain cq where cq: "standardize_text lower (PStr orig) = Inr cq"
    using standardize_text_str by blast
  have 1: "calculate_similarity lower (loaded [] plag) = Inl RuntimeError"
    by (simp add: calculate_similarity_def loaded_def preprocess_texts_def preprocess_side_def
          content_value_def join_optional_def Let_def cp)
  have 2: "calculate_similarity lower (loaded orig []) = Inl RuntimeError"
    by (simp add: calculate_similarity_def loaded_def preprocess_texts_def preprocess_side_def
          content_value_def join_optional_def Let_def cq)
  have 3: "compute_textual_similarity lower (PStr []) (PStr plag) = Inr 0"
    using e tp by (rule similarity_empty) simp
  have 4: "compute_textual_similarity lower (PStr orig) (PStr []) = Inr 0"
    using tq e by (rule similarity_empty) simp
  from 1 2 3 4 show ?thesis by (intro conjI)
qed

end
